theory Spec2Isabelle
  imports Main "HOL-Library.Sublist"
begin

section \<open>Fronius sensor platform: shallow embedding of \<open>fronius/sensor.py\<close>\<close>

subsection \<open>Python values and dictionaries\<close>

text \<open>
  Telemetry values as the client library delivers them. The payload of a Python float is
  kept abstract (type \<open>'f\<close>); the only float operation of the module, \<open>round(x, 2)\<close>, is a
  parameter of the function that uses it.
\<close>

datatype 'f pyval = PNone | PBool bool | PInt int | PFloat 'f | PStr string

text \<open>
  A Python \<open>dict\<close> with string keys is an association list in insertion order.
  \<open>setitem k v d\<close> is \<open>d[k] = v\<close>: an existing key keeps its position and gets the new
  value, a new key is appended. \<open>k in d\<close> is \<open>contains d k\<close>, \<open>d.get(k)\<close> is \<open>map_of d k\<close>.
\<close>

primrec setitem :: "'k \<Rightarrow> 'v \<Rightarrow> ('k \<times> 'v) list \<Rightarrow> ('k \<times> 'v) list" where
  "setitem k v [] = [(k, v)]"
| "setitem k v (p # ps) = (if fst p = k then (k, v) # ps else p # setitem k v ps)"

definition contains :: "('k \<times> 'v) list \<Rightarrow> 'k \<Rightarrow> bool" where
  "contains d k = (map_of d k \<noteq> None)"

definition keys :: "('k \<times> 'v) list \<Rightarrow> 'k list" where
  "keys d = map fst d"

text \<open>\<open>state.get("value")\<close> on an entry: a missing key reads as Python \<open>None\<close>.\<close>

definition entry_get :: "(string \<times> 'f pyval) list \<Rightarrow> string \<Rightarrow> 'f pyval" where
  "entry_get e k = (case map_of e k of None \<Rightarrow> PNone | Some v \<Rightarrow> v)"

subsection \<open>String helpers\<close>

text \<open>\<open>s.startswith(p)\<close>.\<close>

definition startswith :: "string \<Rightarrow> string \<Rightarrow> bool" where
  "startswith s p = prefix p s"

text \<open>\<open>s.replace(a, b)\<close> for single characters \<open>a\<close>, \<open>b\<close>.\<close>

definition replace_char :: "char \<Rightarrow> char \<Rightarrow> string \<Rightarrow> string" where
  "replace_char a b s = map (\<lambda>c. if c = a then b else c) s"

text \<open>
  \<open>s.capitalize()\<close> on ASCII text: first character upper case, the rest lower case.
  Characters outside \<open>a..z\<close> / \<open>A..Z\<close> are left as they are.
\<close>

definition upper_char :: "char \<Rightarrow> char" where
  "upper_char c = (let n = (of_char c :: nat) in if 97 \<le> n \<and> n \<le> 122 then char_of (n - 32) else c)"

definition lower_char :: "char \<Rightarrow> char" where
  "lower_char c = (let n = (of_char c :: nat) in if 65 \<le> n \<and> n \<le> 90 then char_of (n + 32) else c)"

fun capitalize :: "string \<Rightarrow> string" where
  "capitalize [] = []"
| "capitalize (c # cs) = upper_char c # map lower_char cs"

subsection \<open>Prefix tables\<close>

text \<open>
  The device classes and state classes are constants of the host platform; only their
  identity matters here, so each family is an enumeration.
\<close>

datatype device_class =
    DEVICE_CLASS_BATTERY
  | DEVICE_CLASS_CURRENT
  | DEVICE_CLASS_ENERGY
  | DEVICE_CLASS_POWER
  | DEVICE_CLASS_POWER_FACTOR
  | DEVICE_CLASS_TEMPERATURE
  | DEVICE_CLASS_TIMESTAMP
  | DEVICE_CLASS_VOLTAGE

datatype state_class = STATE_CLASS_MEASUREMENT | STATE_CLASS_TOTAL_INCREASING

definition PREFIX_DEVICE_CLASS_MAPPING :: "(string \<times> device_class) list" where
  "PREFIX_DEVICE_CLASS_MAPPING =
    [ (''state_of_charge'', DEVICE_CLASS_BATTERY),
      (''temperature'', DEVICE_CLASS_TEMPERATURE),
      (''power_factor'', DEVICE_CLASS_POWER_FACTOR),
      (''power'', DEVICE_CLASS_POWER),
      (''energy'', DEVICE_CLASS_ENERGY),
      (''current'', DEVICE_CLASS_CURRENT),
      (''timestamp'', DEVICE_CLASS_TIMESTAMP),
      (''voltage'', DEVICE_CLASS_VOLTAGE) ]"

definition PREFIX_STATE_CLASS_MAPPING :: "(string \<times> state_class) list" where
  "PREFIX_STATE_CLASS_MAPPING =
    [ (''state_of_charge'', STATE_CLASS_MEASUREMENT),
      (''temperature'', STATE_CLASS_MEASUREMENT),
      (''power_factor'', STATE_CLASS_MEASUREMENT),
      (''power'', STATE_CLASS_MEASUREMENT),
      (''energy'', STATE_CLASS_TOTAL_INCREASING),
      (''current'', STATE_CLASS_MEASUREMENT),
      (''timestamp'', STATE_CLASS_MEASUREMENT),
      (''voltage'', STATE_CLASS_MEASUREMENT) ]"

text \<open>
  The loop of \<open>FroniusTemplateSensor.__init__\<close>:
  \<^verbatim>\<open>for prefix, cls in TABLE: if self._key.startswith(prefix): attr = cls; break\<close>.
  When the loop ends without a match the attribute is never assigned and keeps the
  class default \<open>None\<close>.
\<close>

fun prefix_loop :: "string \<Rightarrow> (string \<times> 'c) list \<Rightarrow> 'c option" where
  "prefix_loop k [] = None"
| "prefix_loop k ((p, c) # rest) = (if startswith k p then Some c else prefix_loop k rest)"

subsection \<open>The per-field sensor entity\<close>

record 'f sensor =
  key :: string
  attr_name :: string
  attr_device_class :: "device_class option"
  attr_state_class :: "state_class option"
  attr_native_value :: "'f pyval"
  attr_native_unit_of_measurement :: "'f pyval"

text \<open>
  \<open>FroniusTemplateSensor.__init__(parent, key)\<close>. Of the parent only its name is read;
  the reference to the parent is implicit in the model (an entity is always used
  together with the adapter that created it).
\<close>

definition FroniusTemplateSensor :: "string \<Rightarrow> string \<Rightarrow> 'f sensor" where
  "FroniusTemplateSensor parent_name k =
    \<lparr> key = k,
      attr_name = capitalize (replace_char (CHR ''_'') (CHR '' '') k) @ '' '' @ parent_name,
      attr_device_class = prefix_loop k PREFIX_DEVICE_CLASS_MAPPING,
      attr_state_class = prefix_loop k PREFIX_STATE_CLASS_MAPPING,
      attr_native_value = PNone,
      attr_native_unit_of_measurement = PNone \<rparr>"

subsection \<open>The adapter\<close>

type_synonym 'f entry = "(string \<times> 'f pyval) list"
type_synonym 'f fields = "(string \<times> 'f entry) list"

text \<open>
  \<open>FroniusAdapter\<close>. The bridge (the external client) is not part of the state: what
  \<open>await self._update()\<close> delivers is an input of \<open>async_update\<close>. The registered entities
  are referred to by their index in the host's list of entities.
\<close>

record 'f adapter =
  name :: string
  device :: int
  fetched :: "'f fields"
  available :: bool
  sensors :: "string set"
  registered_sensors :: "nat set"

definition FroniusAdapter :: "string \<Rightarrow> int \<Rightarrow> 'f adapter" where
  "FroniusAdapter n d =
    \<lparr> name = n, device = d, fetched = [], available = True, sensors = {},
      registered_sensors = {} \<rparr>"

text \<open>
  What \<open>await self._update()\<close> does: it returns the values, raises \<open>FroniusError\<close>, or
  raises something else (which \<open>async_update\<close> does not catch).
\<close>

datatype 'f outcome = Values "'f fields" | FroniusError string | OtherException string

text \<open>The effects of \<open>async_update\<close> on the logger and the host, in the order they happen.\<close>

datatype 'f event =
    Log_Error string
  | Log_Info string
  | Add_Entities "'f sensor list" bool
  | Schedule_Update "nat set" bool

text \<open>
  \<^verbatim>\<open>for key, entry in values.items(): if "value" in entry: attributes[key] = entry\<close>
\<close>

fun copy_values :: "'f fields \<Rightarrow> 'f fields \<Rightarrow> 'f fields" where
  "copy_values attributes [] = attributes"
| "copy_values attributes ((k, entry) # rest) =
     (if contains entry ''value'' then copy_values (setitem k entry attributes) rest
      else copy_values attributes rest)"

text \<open>
  \<^verbatim>\<open>for key in attributes: if key not in self.sensors: self.sensors.add(key); log; new_sensors.append(...)\<close>
  The loop state is \<open>(self.sensors, log lines, new_sensors)\<close>.
\<close>

fun discover ::
  "string \<Rightarrow> string list \<Rightarrow> string set \<times> 'f event list \<times> 'f sensor list \<Rightarrow>
     string set \<times> 'f event list \<times> 'f sensor list" where
  "discover pn [] acc = acc"
| "discover pn (k # ks) (seen, evs, new) =
     (if k \<notin> seen
      then discover pn ks
             (insert k seen,
              evs @ [Log_Info (''Discovered '' @ k @ '', adding as sensor'')],
              new @ [FroniusTemplateSensor pn k])
      else discover pn ks (seen, evs, new))"

text \<open>
  \<open>FroniusAdapter.async_update\<close>. \<open>Inl\<close> is an exception that leaves the method; the
  adapter is untouched then, since the only statement before it is the fetch.
\<close>

definition async_update ::
  "'f adapter \<Rightarrow> 'f outcome \<Rightarrow> string + ('f adapter \<times> 'f event list)" where
  "async_update self out =
    (case out of
       OtherException e \<Rightarrow> Inl e
     | FroniusError err \<Rightarrow>
         (if available self
          then Inr (self\<lparr>available := False\<rparr>, [Log_Error (''Failed to update: '' @ err)])
          else Inr (self, []))
     | Values values \<Rightarrow>
         (let attributes = copy_values (fetched self) values in
          case discover (name self) (keys attributes) (sensors self, [], []) of
            (seen, logs, new_sensors) \<Rightarrow>
              Inr (self\<lparr>available := True, fetched := attributes, sensors := seen\<rparr>,
                   logs @ [Add_Entities new_sensors True,
                           Schedule_Update (registered_sensors self) True])))"

text \<open>\<open>FroniusAdapter.register\<close> and the remover it returns (\<open>set.remove\<close> raises on a missing element).\<close>

datatype pyerror = KeyError | AttributeError

definition register :: "'f adapter \<Rightarrow> nat \<Rightarrow> 'f adapter" where
  "register self i = self\<lparr>registered_sensors := insert i (registered_sensors self)\<rparr>"

definition unregister :: "'f adapter \<Rightarrow> nat \<Rightarrow> pyerror + 'f adapter" where
  "unregister self i =
    (if i \<in> registered_sensors self
     then Inr (self\<lparr>registered_sensors := registered_sensors self - {i}\<rparr>)
     else Inl KeyError)"

text \<open>\<open>FroniusTemplateSensor.available\<close> and \<open>FroniusTemplateSensor.async_update\<close>.\<close>

definition sensor_available :: "'f adapter \<Rightarrow> 'f sensor \<Rightarrow> bool" where
  "sensor_available parent s = available parent"

definition sensor_async_update ::
  "('f \<Rightarrow> 'f) \<Rightarrow> 'f adapter \<Rightarrow> 'f sensor \<Rightarrow> pyerror + 'f sensor" where
  "sensor_async_update round2 parent s =
    (case map_of (fetched parent) (key s) of
       None \<Rightarrow> Inl AttributeError
     | Some state \<Rightarrow>
         Inr (s\<lparr> attr_native_value :=
                   (case entry_get state ''value'' of
                      PFloat x \<Rightarrow> PFloat (round2 x)
                    | v \<Rightarrow> v),
                 attr_native_unit_of_measurement := entry_get state ''unit'' \<rparr>))"

subsection \<open>Sequences of polling cycles\<close>

text \<open>
  One scheduled call of \<open>fetch_data\<close>: an exception that leaves \<open>async_update\<close> ends this
  cycle only (the adapter is as it was), the timer fires again.
\<close>

definition tick :: "'f adapter \<Rightarrow> 'f outcome \<Rightarrow> 'f adapter \<times> 'f event list" where
  "tick self out = (case async_update self out of Inl e \<Rightarrow> (self, []) | Inr r \<Rightarrow> r)"

fun run :: "'f adapter \<Rightarrow> 'f outcome list \<Rightarrow> 'f adapter \<times> 'f event list" where
  "run self [] = (self, [])"
| "run self (out # outs) =
     (case tick self out of (self', evs) \<Rightarrow>
        (case run self' outs of (self'', evs') \<Rightarrow> (self'', evs @ evs')))"

text \<open>The adapter after each cycle: \<open>trace self outs ! i\<close> is the state before cycle \<open>i\<close>.\<close>

fun trace :: "'f adapter \<Rightarrow> 'f outcome list \<Rightarrow> 'f adapter list" where
  "trace self [] = [self]"
| "trace self (out # outs) = self # trace (fst (tick self out)) outs"

text \<open>The entities handed to the host and the error lines, read off the events.\<close>

fun created :: "'f event list \<Rightarrow> 'f sensor list" where
  "created [] = []"
| "created (Add_Entities new b # evs) = new @ created evs"
| "created (e # evs) = created evs"

fun error_lines :: "'f event list \<Rightarrow> string list" where
  "error_lines [] = []"
| "error_lines (Log_Error m # evs) = m # error_lines evs"
| "error_lines (e # evs) = error_lines evs"

subsection \<open>The adapter together with its entities\<close>

text \<open>
  The entity objects live in the host. \<open>entities\<close> lists every \<open>FroniusTemplateSensor\<close>
  the adapter has handed to \<open>async_add_entities\<close>, in creation order; the position is the
  identity of the object. The host drives the system by callbacks, each of which runs to
  completion on the event loop: a polling cycle, \<open>async_added_to_hass\<close> of an entity it was
  given (which registers it with the parent), the remover returned by \<open>register\<close>, and
  \<open>async_update\<close> of an entity (before it is added, and whenever an update was scheduled).
\<close>

record 'f system =
  parent :: "'f adapter"
  entities :: "'f sensor list"

datatype 'f action =
    Poll "'f outcome"
  | Added_To_Hass nat
  | Removed nat
  | Entity_Update nat

text \<open>
  One callback. A callback that raises is reported by the host and leaves the state as it
  was (each of them raises before it has written anything); the host has no entity beyond
  those it was given, so an index out of range does nothing.
\<close>

definition host_step :: "('f \<Rightarrow> 'f) \<Rightarrow> 'f system \<Rightarrow> 'f action \<Rightarrow> 'f system" where
  "host_step round2 sys act =
    (case act of
       Poll out \<Rightarrow>
         (case async_update (parent sys) out of
            Inl e \<Rightarrow> sys
          | Inr (self', evs) \<Rightarrow> \<lparr> parent = self', entities = entities sys @ created evs \<rparr>)
     | Added_To_Hass i \<Rightarrow>
         (if i < length (entities sys) then sys\<lparr>parent := register (parent sys) i\<rparr> else sys)
     | Removed i \<Rightarrow>
         (case unregister (parent sys) i of
            Inl e \<Rightarrow> sys
          | Inr self' \<Rightarrow> sys\<lparr>parent := self'\<rparr>)
     | Entity_Update i \<Rightarrow>
         (if i < length (entities sys)
          then (case sensor_async_update round2 (parent sys) (entities sys ! i) of
                  Inl e \<Rightarrow> sys
                | Inr s' \<Rightarrow> sys\<lparr>entities := (entities sys)[i := s']\<rparr>)
          else sys))"

fun exec :: "('f \<Rightarrow> 'f) \<Rightarrow> 'f system \<Rightarrow> 'f action list \<Rightarrow> 'f system" where
  "exec round2 sys [] = sys"
| "exec round2 sys (act # acts) = exec round2 (host_step round2 sys act) acts"

definition initial :: "string \<Rightarrow> int \<Rightarrow> 'f system" where
  "initial n d = \<lparr> parent = FroniusAdapter n d, entities = [] \<rparr>"

subsection \<open>Configuration\<close>

text \<open>Scalar values of a configuration as it is read from the user's file.\<close>

datatype cval = CNone | CBool bool | CInt int | CStr string

text \<open>A monitored condition is a \<open>dict\<close> from key names to values.\<close>

type_synonym cond = "(string \<times> cval) list"

definition CONF_SCOPE :: string where "CONF_SCOPE = ''scope''"

text \<open>
  Modelled from the spec: \<open>CONF_DEVICE\<close> and \<open>CONF_SENSOR_TYPE\<close> are constants of the host
  platform's \<open>homeassistant.const\<close>, which is not among the sources; they are the keys of
  what the specification calls the device index and the sensor type of a monitored
  condition. The properties below use only that the key names differ.
\<close>

definition CONF_DEVICE :: string where "CONF_DEVICE = ''device''"
definition CONF_SENSOR_TYPE :: string where "CONF_SENSOR_TYPE = ''sensor_type''"

definition TYPE_INVERTER :: string where "TYPE_INVERTER = ''inverter''"
definition TYPE_METER :: string where "TYPE_METER = ''meter''"
definition SCOPE_DEVICE :: string where "SCOPE_DEVICE = ''device''"

definition DEFAULT_DEVICE :: int where "DEFAULT_DEVICE = 0"
definition DEFAULT_INVERTER :: int where "DEFAULT_INVERTER = 1"



subsubsection \<open>\<open>_device_id_validator\<close>\<close>

text \<open>
  The validator copies its argument and then assigns into the condition dictionaries of the
  copy, so the condition dictionaries are objects in a store: the address of an object is
  its position, allocation appends. The configuration holds the list of the addresses of
  its conditions. The configuration dictionary itself and the list are never assigned to
  by the validator, so they are values; the fields of the configuration other than the
  conditions are the record's extension.
\<close>

type_synonym store = "cond list"

record config =
  resource :: string
  monitored_conditions :: "nat list"

text \<open>
  \<open>copy.deepcopy\<close> on the conditions: each condition object is copied into a newly
  allocated one; an object that occurs twice is copied once (the memo of \<open>deepcopy\<close>).
\<close>

fun deepcopy_conds :: "(nat \<times> nat) list \<Rightarrow> store \<Rightarrow> nat list \<Rightarrow> store \<times> nat list" where
  "deepcopy_conds memo st [] = (st, [])"
| "deepcopy_conds memo st (a # rest) =
     (case map_of memo a of
        Some b \<Rightarrow> (case deepcopy_conds memo st rest of (st', bs) \<Rightarrow> (st', b # bs))
      | None \<Rightarrow>
          (case deepcopy_conds ((a, length st) # memo) (st @ [st ! a]) rest of
             (st', bs) \<Rightarrow> (st', length st # bs)))"

text \<open>
  The body of the loop, on the content of one condition object: \<open>cond[CONF_SENSOR_TYPE]\<close>
  raises \<open>KeyError\<close> when the key is missing.
\<close>

definition set_default_device :: "cond \<Rightarrow> pyerror + cond" where
  "set_default_device cond =
    (if \<not> contains cond CONF_DEVICE
     then (case map_of cond CONF_SENSOR_TYPE of
             None \<Rightarrow> Inl KeyError
           | Some t \<Rightarrow>
               if t = CStr TYPE_INVERTER
               then Inr (setitem CONF_DEVICE (CInt DEFAULT_INVERTER) cond)
               else Inr (setitem CONF_DEVICE (CInt DEFAULT_DEVICE) cond))
     else Inr cond)"

text \<open>
  \<^verbatim>\<open>for cond in config[CONF_MONITORED_CONDITIONS]: ...\<close> over the addresses of the copy. The
  result is the store and the exception that ended the loop, if any.
\<close>

fun device_id_loop :: "store \<Rightarrow> nat list \<Rightarrow> store \<times> pyerror option" where
  "device_id_loop st [] = (st, None)"
| "device_id_loop st (b # bs) =
     (case set_default_device (st ! b) of
        Inl e \<Rightarrow> (st, Some e)
      | Inr c \<Rightarrow> device_id_loop (st[b := c]) bs)"

definition device_id_validator ::
  "store \<Rightarrow> 'a config_scheme \<Rightarrow> store \<times> (pyerror + 'a config_scheme)" where
  "device_id_validator st config =
    (case deepcopy_conds [] st (monitored_conditions config) of
       (st1, bs) \<Rightarrow>
         (case device_id_loop st1 bs of
            (st2, Some e) \<Rightarrow> (st2, Inl e)
          | (st2, None) \<Rightarrow> (st2, Inr (config\<lparr>monitored_conditions := bs\<rparr>))))"

subsubsection \<open>The schema of a monitored condition\<close>







text \<open>
  The invariant of the system: every entity was created for a key of the stored field map,
  and only entities the host was given are registered.
\<close>

definition entities_have_fields :: "'f system \<Rightarrow> bool" where
  "entities_have_fields sys \<longleftrightarrow>
     (\<forall>i < length (entities sys). key (entities sys ! i) \<in> set (keys (fetched (parent sys)))) \<and>
     (\<forall>i \<in> registered_sensors (parent sys). i < length (entities sys))"

section \<open>Properties\<close>

subsection \<open>Prefix classification\<close>

lemma prefix_loop_None:
  "prefix_loop k tab = None \<longleftrightarrow> (\<forall>i < length tab. \<not> startswith k (fst (tab ! i)))"
proof (induction tab)
  case Nil
  show ?case by simp
next
  case (Cons pc tab)
  obtain p c where pc: "pc = (p, c)" by (cases pc)
  show ?case
    unfolding pc using Cons.IH
    by (auto simp: nth_Cons less_Suc_eq_0_disj split: nat.splits)
qed

lemma prefix_loop_Some:
  "prefix_loop k tab = Some c \<longleftrightarrow>
     (\<exists>i < length tab. startswith k (fst (tab ! i)) \<and> snd (tab ! i) = c \<and>
        (\<forall>j < i. \<not> startswith k (fst (tab ! j))))"
proof (induction tab)
  case Nil
  show ?case by simp
next
  case (Cons pc tab)
  obtain p c' where pc: "pc = (p, c')" by (cases pc)
  show ?case
  proof (cases "startswith k p")
    case True
    have "(\<exists>i < length (pc # tab). startswith k (fst ((pc # tab) ! i)) \<and> snd ((pc # tab) ! i) = c \<and>
        (\<forall>j < i. \<not> startswith k (fst ((pc # tab) ! j)))) \<longleftrightarrow> c' = c"
    proof
      assume "\<exists>i < length (pc # tab). startswith k (fst ((pc # tab) ! i)) \<and> snd ((pc # tab) ! i) = c \<and>
        (\<forall>j < i. \<not> startswith k (fst ((pc # tab) ! j)))"
      then obtain i where i: "startswith k (fst ((pc # tab) ! i))" "snd ((pc # tab) ! i) = c"
        "\<forall>j < i. \<not> startswith k (fst ((pc # tab) ! j))" by blast
      have "i = 0"
      proof (rule ccontr)
        assume "i \<noteq> 0"
        then have "0 < i" by simp
        with i(3) have "\<not> startswith k (fst ((pc # tab) ! 0))" by blast
        with True pc show False by simp
      qed
      with i(2) pc show "c' = c" by simp
    next
      assume "c' = c"
      with True pc show "\<exists>i < length (pc # tab). startswith k (fst ((pc # tab) ! i)) \<and> snd ((pc # tab) ! i) = c \<and>
        (\<forall>j < i. \<not> startswith k (fst ((pc # tab) ! j)))"
        by (intro exI[of _ 0]) simp
    qed
    with True pc show ?thesis by simp
  next
    case False
    have "(\<exists>i < length (pc # tab). startswith k (fst ((pc # tab) ! i)) \<and> snd ((pc # tab) ! i) = c \<and>
        (\<forall>j < i. \<not> startswith k (fst ((pc # tab) ! j)))) \<longleftrightarrow>
      (\<exists>i < length tab. startswith k (fst (tab ! i)) \<and> snd (tab ! i) = c \<and>
        (\<forall>j < i. \<not> startswith k (fst (tab ! j))))" (is "?L \<longleftrightarrow> ?R")
    proof
      assume ?L
      then obtain i where i: "i < length (pc # tab)" "startswith k (fst ((pc # tab) ! i))"
        "snd ((pc # tab) ! i) = c" "\<forall>j < i. \<not> startswith k (fst ((pc # tab) ! j))" by blast
      from i(2) False pc have "i \<noteq> 0" by (cases i) auto
      then obtain i' where i': "i = Suc i'" by (cases i) auto
      have "\<forall>j < i'. \<not> startswith k (fst (tab ! j))"
      proof (intro allI impI)
        fix j assume "j < i'"
        then have "Suc j < i" using i' by simp
        with i(4) have "\<not> startswith k (fst ((pc # tab) ! Suc j))" by blast
        then show "\<not> startswith k (fst (tab ! j))" by simp
      qed
      with i i' show ?R by (intro exI[of _ i']) simp
    next
      assume ?R
      then obtain i where i: "i < length tab" "startswith k (fst (tab ! i))"
        "snd (tab ! i) = c" "\<forall>j < i. \<not> startswith k (fst (tab ! j))" by blast
      have "\<forall>j < Suc i. \<not> startswith k (fst ((pc # tab) ! j))"
      proof (intro allI impI)
        fix j assume "j < Suc i"
        show "\<not> startswith k (fst ((pc # tab) ! j))"
        proof (cases j)
          case 0
          with False pc show ?thesis by simp
        next
          case (Suc j')
          with \<open>j < Suc i\<close> i(4) show ?thesis by simp
        qed
      qed
      with i show ?L by (intro exI[of _ "Suc i"]) simp
    qed
    with False pc Cons.IH show ?thesis by simp
  qed
qed

lemma table_prefixes_agree:
  "map fst PREFIX_STATE_CLASS_MAPPING = map fst PREFIX_DEVICE_CLASS_MAPPING"
  by (simp add: PREFIX_STATE_CLASS_MAPPING_def PREFIX_DEVICE_CLASS_MAPPING_def)

lemma table_prefix_nth:
  assumes "i < length PREFIX_DEVICE_CLASS_MAPPING"
  shows "fst (PREFIX_STATE_CLASS_MAPPING ! i) = fst (PREFIX_DEVICE_CLASS_MAPPING ! i)"
    and "i < length PREFIX_STATE_CLASS_MAPPING"
proof -
  have len: "length PREFIX_STATE_CLASS_MAPPING = length PREFIX_DEVICE_CLASS_MAPPING"
    using arg_cong[OF table_prefixes_agree, of length] by simp
  with assms show "i < length PREFIX_STATE_CLASS_MAPPING" by simp
  then have "fst (PREFIX_STATE_CLASS_MAPPING ! i) = map fst PREFIX_STATE_CLASS_MAPPING ! i"
    by simp
  also have "\<dots> = map fst PREFIX_DEVICE_CLASS_MAPPING ! i"
    by (simp only: table_prefixes_agree)
  also have "\<dots> = fst (PREFIX_DEVICE_CLASS_MAPPING ! i)"
    using assms by simp
  finally show "fst (PREFIX_STATE_CLASS_MAPPING ! i) = fst (PREFIX_DEVICE_CLASS_MAPPING ! i)" .
qed

text \<open>
  C4. The device class and the state class of a sensor entity are those paired with the
  first prefix of the ordered table that its field name starts with (both tables list the
  same prefixes in the same order); a name starting with \<open>power_factor\<close> gets the
  power-factor class although \<open>power\<close> matches too; with no matching prefix neither
  class is assigned.
\<close>

theorem class_is_first_matching_prefix:
  fixes pn k :: string
  defines "s \<equiv> (FroniusTemplateSensor pn k :: 'f sensor)"
  shows "(\<forall>i < length PREFIX_DEVICE_CLASS_MAPPING.
            startswith k (fst (PREFIX_DEVICE_CLASS_MAPPING ! i)) \<and>
            (\<forall>j < i. \<not> startswith k (fst (PREFIX_DEVICE_CLASS_MAPPING ! j))) \<longrightarrow>
            attr_device_class s = Some (snd (PREFIX_DEVICE_CLASS_MAPPING ! i)) \<and>
            attr_state_class s = Some (snd (PREFIX_STATE_CLASS_MAPPING ! i))) \<and>
         ((\<forall>i < length PREFIX_DEVICE_CLASS_MAPPING.
             \<not> startswith k (fst (PREFIX_DEVICE_CLASS_MAPPING ! i))) \<longrightarrow>
            attr_device_class s = None \<and> attr_state_class s = None) \<and>
         (startswith k ''power_factor'' \<longrightarrow>
            attr_device_class s = Some DEVICE_CLASS_POWER_FACTOR \<and>
            attr_state_class s = Some STATE_CLASS_MEASUREMENT)"
proof (intro conjI allI impI)
  fix i
  assume i: "i < length PREFIX_DEVICE_CLASS_MAPPING"
    and m: "startswith k (fst (PREFIX_DEVICE_CLASS_MAPPING ! i)) \<and>
            (\<forall>j < i. \<not> startswith k (fst (PREFIX_DEVICE_CLASS_MAPPING ! j)))"
  have "prefix_loop k PREFIX_DEVICE_CLASS_MAPPING = Some (snd (PREFIX_DEVICE_CLASS_MAPPING ! i))"
    unfolding prefix_loop_Some using i m by blast
  then show "attr_device_class s = Some (snd (PREFIX_DEVICE_CLASS_MAPPING ! i))"
    by (simp add: s_def FroniusTemplateSensor_def)
  have "\<forall>j < i. \<not> startswith k (fst (PREFIX_STATE_CLASS_MAPPING ! j))"
    using m i table_prefix_nth(1) by (metis less_trans)
  moreover have "startswith k (fst (PREFIX_STATE_CLASS_MAPPING ! i))"
    using m i table_prefix_nth(1) by simp
  ultimately have "prefix_loop k PREFIX_STATE_CLASS_MAPPING = Some (snd (PREFIX_STATE_CLASS_MAPPING ! i))"
    unfolding prefix_loop_Some using table_prefix_nth(2)[OF i] by blast
  then show "attr_state_class s = Some (snd (PREFIX_STATE_CLASS_MAPPING ! i))"
    by (simp add: s_def FroniusTemplateSensor_def)
next
  assume no: "\<forall>i < length PREFIX_DEVICE_CLASS_MAPPING.
             \<not> startswith k (fst (PREFIX_DEVICE_CLASS_MAPPING ! i))"
  then have "prefix_loop k PREFIX_DEVICE_CLASS_MAPPING = None"
    unfolding prefix_loop_None .
  then show "attr_device_class s = None"
    by (simp add: s_def FroniusTemplateSensor_def)
  have len: "length PREFIX_STATE_CLASS_MAPPING = length PREFIX_DEVICE_CLASS_MAPPING"
    using arg_cong[OF table_prefixes_agree, of length] by simp
  have "\<forall>i < length PREFIX_STATE_CLASS_MAPPING.
             \<not> startswith k (fst (PREFIX_STATE_CLASS_MAPPING ! i))"
    using no table_prefix_nth(1) len by simp
  then have "prefix_loop k PREFIX_STATE_CLASS_MAPPING = None"
    unfolding prefix_loop_None .
  then show "attr_state_class s = None"
    by (simp add: s_def FroniusTemplateSensor_def)
next
  assume "startswith k ''power_factor''"
  then obtain r where k: "k = ''power_factor'' @ r"
    by (auto simp: startswith_def prefix_def)
  show "attr_device_class s = Some DEVICE_CLASS_POWER_FACTOR"
    by (simp add: s_def FroniusTemplateSensor_def PREFIX_DEVICE_CLASS_MAPPING_def startswith_def k)
  show "attr_state_class s = Some STATE_CLASS_MEASUREMENT"
    by (simp add: s_def FroniusTemplateSensor_def PREFIX_STATE_CLASS_MAPPING_def startswith_def k)
qed

theorem class_is_first_matching_prefix_witness:
  "attr_device_class (FroniusTemplateSensor ''Fronius Inverter 1 http://x'' ''power_factor_phase_1'' :: unit sensor)
      = Some DEVICE_CLASS_POWER_FACTOR \<and>
   attr_state_class (FroniusTemplateSensor ''Fronius Inverter 1 http://x'' ''power_factor_phase_1'' :: unit sensor)
      = Some STATE_CLASS_MEASUREMENT \<and>
   startswith ''power_factor_phase_1'' ''power'' \<and>
   attr_device_class (FroniusTemplateSensor ''Fronius Inverter 1 http://x'' ''status_code'' :: unit sensor) = None"
  using class_is_first_matching_prefix [of "''power_factor_phase_1''" "''Fronius Inverter 1 http://x''", where 'f = unit]
    class_is_first_matching_prefix [of "''status_code''" "''Fronius Inverter 1 http://x''", where 'f = unit]
  by (simp add: startswith_def PREFIX_DEVICE_CLASS_MAPPING_def PREFIX_STATE_CLASS_MAPPING_def nth_Cons' All_less_Suc)

subsection \<open>Dictionaries\<close>

lemma map_of_setitem: "map_of (setitem k v d) = (map_of d)(k \<mapsto> v)"
  by (induction d) (auto simp: fun_eq_iff)

lemma keys_setitem: "set (keys (setitem k v d)) = insert k (set (keys d))"
  by (induction d) (auto simp: keys_def)

lemma contains_keys: "contains d k \<longleftrightarrow> k \<in> set (keys d)"
  by (simp add: contains_def keys_def map_of_eq_None_iff)

subsection \<open>The two loops of the adapter\<close>

lemma copy_values_keys_mono: "set (keys attributes) \<subseteq> set (keys (copy_values attributes V))"
proof (induction V arbitrary: attributes)
  case Nil
  show ?case by simp
next
  case (Cons p V)
  obtain k e where p: "p = (k, e)" by (cases p)
  show ?case
    using Cons.IH [of attributes] Cons.IH [of "setitem k e attributes"]
    by (auto simp: p keys_setitem)
qed

lemma copy_values_adds_key:
  "(k, e) \<in> set V \<Longrightarrow> contains e ''value'' \<Longrightarrow> k \<in> set (keys (copy_values attributes V))"
proof (induction V arbitrary: attributes)
  case Nil
  then show ?case by simp
next
  case (Cons p V)
  obtain k' e' where p: "p = (k', e')" by (cases p)
  show ?case
  proof (cases "(k, e) = (k', e')")
    case True
    have "k \<in> set (keys (setitem k e attributes))" by (simp add: keys_setitem)
    with copy_values_keys_mono [of "setitem k e attributes" V]
    show ?thesis using True Cons.prems p by auto
  next
    case False
    with Cons.prems p have "(k, e) \<in> set V" by auto
    with Cons.IH Cons.prems show ?thesis by (auto simp: p)
  qed
qed

lemma map_of_copy_values:
  "distinct (keys V) \<Longrightarrow>
   map_of (copy_values attributes V) k =
     (case map_of V k of
        Some e \<Rightarrow> if contains e ''value'' then Some e else map_of attributes k
      | None \<Rightarrow> map_of attributes k)"
proof (induction V arbitrary: attributes)
  case Nil
  show ?case by simp
next
  case (Cons p V)
  obtain k' e' where p: "p = (k', e')" by (cases p)
  from Cons.prems p have d: "distinct (keys V)" and nk: "k' \<notin> set (keys V)"
    by (simp_all add: keys_def)
  from nk have none: "map_of V k' = None"
    by (simp add: keys_def map_of_eq_None_iff)
  show ?case
  proof (cases "k = k'")
    case True
    then show ?thesis
      using Cons.IH [OF d] none by (simp add: p map_of_setitem)
  next
    case False
    then show ?thesis
      using Cons.IH [OF d] by (simp add: p map_of_setitem split: option.splits)
  qed
qed

lemma discover_result:
  "discover pn ks (seen, evs, new) = (seen', evs', new') \<Longrightarrow>
     seen' = seen \<union> set ks \<and>
     (\<exists>add. new' = new @ add \<and> created evs' = created evs \<and>
        error_lines evs' = error_lines evs \<and>
        (\<forall>s \<in> set add. s = FroniusTemplateSensor pn (key s)) \<and>
        (\<forall>k. length (filter (\<lambda>s. key s = k) add) = (if k \<in> set ks \<and> k \<notin> seen then 1 else 0)))"
proof (induction ks arbitrary: seen evs new)
  case Nil
  then show ?case by simp
next
  case (Cons k ks)
  show ?case
  proof (cases "k \<in> seen")
    case True
    with Cons.prems have "discover pn ks (seen, evs, new) = (seen', evs', new')" by simp
    from Cons.IH [OF this] obtain add where
      a: "seen' = seen \<union> set ks" "new' = new @ add" "created evs' = created evs"
         "error_lines evs' = error_lines evs"
         "\<forall>s \<in> set add. s = FroniusTemplateSensor pn (key s)" and
      cnt: "\<forall>k'. length (filter (\<lambda>s. key s = k') add) = (if k' \<in> set ks \<and> k' \<notin> seen then 1 else 0)"
      by blast
    have "\<forall>k'. length (filter (\<lambda>s. key s = k') add) = (if k' \<in> set (k # ks) \<and> k' \<notin> seen then 1 else 0)"
    proof
      fix k'
      show "length (filter (\<lambda>s. key s = k') add) = (if k' \<in> set (k # ks) \<and> k' \<notin> seen then 1 else 0)"
        using cnt [rule_format, of k'] True by (cases "k' = k") simp_all
    qed
    with a True show ?thesis by (intro conjI exI[of _ add]) auto
  next
    case False
    let ?s = "FroniusTemplateSensor pn k :: 'a sensor"
    let ?l = "Log_Info (''Discovered '' @ k @ '', adding as sensor'') :: 'a event"
    from False Cons.prems
    have "discover pn ks (insert k seen, evs @ [?l], new @ [?s]) = (seen', evs', new')" by simp
    from Cons.IH [OF this] obtain add where
      seen': "seen' = insert k seen \<union> set ks" and
      new': "new' = (new @ [?s]) @ add" and
      cr: "created evs' = created (evs @ [?l])" and
      er: "error_lines evs' = error_lines (evs @ [?l])" and
      mk: "\<forall>s \<in> set add. s = FroniusTemplateSensor pn (key s)" and
      cnt: "\<forall>k'. length (filter (\<lambda>s. key s = k') add) = (if k' \<in> set ks \<and> k' \<notin> insert k seen then 1 else 0)"
      by blast
    have key_s: "key ?s = k" by (simp add: FroniusTemplateSensor_def)
    have cr': "created (evs @ [?l]) = created evs" by (induction evs rule: created.induct) simp_all
    have er': "error_lines (evs @ [?l]) = error_lines evs" by (induction evs rule: error_lines.induct) simp_all
    have "new' = new @ (?s # add)" using new' by simp
    moreover have "\<forall>s \<in> set (?s # add). s = FroniusTemplateSensor pn (key s)"
      using mk key_s by simp
    moreover have "\<forall>k'. length (filter (\<lambda>s. key s = k') (?s # add)) = (if k' \<in> set (k # ks) \<and> k' \<notin> seen then 1 else 0)"
    proof
      fix k'
      show "length (filter (\<lambda>s. key s = k') (?s # add)) = (if k' \<in> set (k # ks) \<and> k' \<notin> seen then 1 else 0)"
        using cnt [rule_format, of k'] key_s False by (cases "k' = k") simp_all
    qed
    ultimately show ?thesis using seen' cr er cr' er' by (intro conjI exI[of _ "?s # add"]) auto
  qed
qed

lemma created_append: "created (xs @ ys) = created xs @ created ys"
  by (induction xs rule: created.induct) simp_all

lemma error_lines_append: "error_lines (xs @ ys) = error_lines xs @ error_lines ys"
  by (induction xs rule: error_lines.induct) simp_all

text \<open>What a successful update does, in one statement.\<close>

lemma async_update_Values:
  fixes self :: "'f adapter"
  shows "\<exists>logs new. async_update self (Values V) =
      Inr (self\<lparr>available := True, fetched := copy_values (fetched self) V,
                sensors := sensors self \<union> set (keys (copy_values (fetched self) V))\<rparr>,
           logs @ [Add_Entities new True, Schedule_Update (registered_sensors self) True]) \<and>
      created logs = [] \<and> error_lines logs = [] \<and>
      (\<forall>s \<in> set new. s = FroniusTemplateSensor (name self) (key s)) \<and>
      (\<forall>k. length (filter (\<lambda>s. key s = k) new) =
             (if k \<in> set (keys (copy_values (fetched self) V)) \<and> k \<notin> sensors self then 1 else 0))"
proof -
  let ?attrs = "copy_values (fetched self) V"
  obtain seen logs new where
    d: "discover (name self) (keys ?attrs) (sensors self, [] :: 'f event list, [] :: 'f sensor list)
          = (seen, logs, new)"
    using prod_cases3 by blast
  note dr = discover_result [OF d]
  have seen: "seen = sensors self \<union> set (keys ?attrs)" by (rule conjunct1 [OF dr])
  obtain add where
    add: "new = [] @ add \<and> created logs = created [] \<and>
        error_lines logs = error_lines ([] :: 'f event list) \<and>
        (\<forall>s \<in> set add. s = FroniusTemplateSensor (name self) (key s)) \<and>
        (\<forall>k. length (filter (\<lambda>s. key s = k) add) =
             (if k \<in> set (keys ?attrs) \<and> k \<notin> sensors self then 1 else 0))"
    using conjunct2 [OF dr] ..
  have r: "new = add" "created logs = []" "error_lines logs = []"
       "\<forall>s \<in> set new. s = FroniusTemplateSensor (name self) (key s)"
       "\<forall>k. length (filter (\<lambda>s. key s = k) new) =
             (if k \<in> set (keys ?attrs) \<and> k \<notin> sensors self then 1 else 0)"
    using add by simp_all
  have "async_update self (Values V) =
      Inr (self\<lparr>available := True, fetched := ?attrs, sensors := seen\<rparr>,
           logs @ [Add_Entities new True, Schedule_Update (registered_sensors self) True])"
    using d by (simp add: async_update_def Let_def)
  with r seen show ?thesis by (intro exI[of _ logs] exI[of _ new]) simp
qed

lemma async_update_FroniusError:
  "async_update self (FroniusError err) =
     (if available self
      then Inr (self\<lparr>available := False\<rparr>, [Log_Error (''Failed to update: '' @ err)])
      else Inr (self, []))"
  by (simp add: async_update_def)

lemma tick_Values:
  "\<exists>logs new. tick self (Values V) =
      (self\<lparr>available := True, fetched := copy_values (fetched self) V,
                sensors := sensors self \<union> set (keys (copy_values (fetched self) V))\<rparr>,
       logs @ [Add_Entities new True, Schedule_Update (registered_sensors self) True]) \<and>
      created logs = [] \<and> error_lines logs = [] \<and>
      (\<forall>s \<in> set new. s = FroniusTemplateSensor (name self) (key s)) \<and>
      (\<forall>k. length (filter (\<lambda>s. key s = k) new) =
             (if k \<in> set (keys (copy_values (fetched self) V)) \<and> k \<notin> sensors self then 1 else 0))"
proof -
  from async_update_Values [of self V] obtain logs new where
    a: "async_update self (Values V) =
      Inr (self\<lparr>available := True, fetched := copy_values (fetched self) V,
                sensors := sensors self \<union> set (keys (copy_values (fetched self) V))\<rparr>,
           logs @ [Add_Entities new True, Schedule_Update (registered_sensors self) True])"
    and r: "created logs = []" "error_lines logs = []"
      "\<forall>s \<in> set new. s = FroniusTemplateSensor (name self) (key s)"
      "\<forall>k. length (filter (\<lambda>s. key s = k) new) =
             (if k \<in> set (keys (copy_values (fetched self) V)) \<and> k \<notin> sensors self then 1 else 0)"
    by blast
  from a have "tick self (Values V) =
      (self\<lparr>available := True, fetched := copy_values (fetched self) V,
                sensors := sensors self \<union> set (keys (copy_values (fetched self) V))\<rparr>,
       logs @ [Add_Entities new True, Schedule_Update (registered_sensors self) True])"
    by (simp add: tick_def)
  with r show ?thesis by blast
qed

lemma tick_FroniusError:
  "tick self (FroniusError err) =
     (if available self
      then (self\<lparr>available := False\<rparr>, [Log_Error (''Failed to update: '' @ err)])
      else (self, []))"
  by (simp add: tick_def async_update_FroniusError)

lemma tick_OtherException: "tick self (OtherException e) = (self, [])"
  by (simp add: tick_def async_update_def)

lemma tick_sensors_mono: "sensors self \<subseteq> sensors (fst (tick self out))"
proof (cases out)
  case (Values V)
  from tick_Values [of self V] show ?thesis unfolding Values by auto
qed (simp_all add: tick_FroniusError tick_OtherException)

lemma tick_created_count:
  "length (filter (\<lambda>s. key s = k) (created (snd (tick self out)))) =
     (if k \<notin> sensors self \<and> k \<in> sensors (fst (tick self out)) then 1 else 0)"
proof (cases out)
  case (Values V)
  from tick_Values [of self V] obtain logs new where
    t: "tick self (Values V) =
      (self\<lparr>available := True, fetched := copy_values (fetched self) V,
                sensors := sensors self \<union> set (keys (copy_values (fetched self) V))\<rparr>,
       logs @ [Add_Entities new True, Schedule_Update (registered_sensors self) True])"
    and c: "created logs = []"
    and n: "\<forall>k. length (filter (\<lambda>s. key s = k) new) =
             (if k \<in> set (keys (copy_values (fetched self) V)) \<and> k \<notin> sensors self then 1 else 0)"
    by blast
  have "created (snd (tick self out)) = new"
    by (simp add: Values t created_append c)
  moreover have "sensors (fst (tick self out)) = sensors self \<union> set (keys (copy_values (fetched self) V))"
    by (simp add: Values t)
  ultimately show ?thesis using n [rule_format, of k] by auto
qed (simp_all add: tick_FroniusError tick_OtherException)

lemma run_sensors_mono: "sensors self \<subseteq> sensors (fst (run self outs))"
proof (induction outs arbitrary: self)
  case Nil
  show ?case by simp
next
  case (Cons out outs)
  obtain s1 e1 where t: "tick self out = (s1, e1)" by (cases "tick self out")
  obtain s2 e2 where r: "run s1 outs = (s2, e2)" by (cases "run s1 outs")
  from tick_sensors_mono [of self out] t have "sensors self \<subseteq> sensors s1" by simp
  moreover from Cons.IH [of s1] r have "sensors s1 \<subseteq> sensors s2" by simp
  ultimately show ?case by (simp add: t r)
qed

lemma run_created_count:
  "length (filter (\<lambda>s. key s = k) (created (snd (run self outs)))) =
     (if k \<notin> sensors self \<and> k \<in> sensors (fst (run self outs)) then 1 else 0)"
proof (induction outs arbitrary: self)
  case Nil
  show ?case by simp
next
  case (Cons out outs)
  obtain s1 e1 where t: "tick self out = (s1, e1)" by (cases "tick self out")
  obtain s2 e2 where r: "run s1 outs = (s2, e2)" by (cases "run s1 outs")
  have c1: "length (filter (\<lambda>s. key s = k) (created e1)) =
     (if k \<notin> sensors self \<and> k \<in> sensors s1 then 1 else 0)"
    using tick_created_count [of k self out] t by simp
  have c2: "length (filter (\<lambda>s. key s = k) (created e2)) =
     (if k \<notin> sensors s1 \<and> k \<in> sensors s2 then 1 else 0)"
    using Cons.IH [of s1] r by simp
  have m1: "sensors self \<subseteq> sensors s1" using tick_sensors_mono [of self out] t by simp
  have m2: "sensors s1 \<subseteq> sensors s2" using run_sensors_mono [of s1 outs] r by simp
  have "length (filter (\<lambda>s. key s = k) (created (e1 @ e2))) =
     (if k \<notin> sensors self \<and> k \<in> sensors s2 then 1 else 0)"
    unfolding created_append filter_append length_append c1 c2 using m1 m2 by auto
  then show ?case by (simp add: t r)
qed

text \<open>
  C1. A field name is materialized at most once per adapter. A key of the fetch response
  whose entry carries a \<open>value\<close> (the test the code applies to tell a field from other
  response keys) and that the adapter has not seen yet yields exactly one new entity in
  that update and enters the seen set; a key already in the seen set never yields an
  entity again, whatever the later cycles deliver; so over any sequence of cycles at most
  one entity is created per key.
\<close>

theorem field_materialized_once:
  fixes self :: "'f adapter"
  shows
  "(\<forall>V e self' evs.
      async_update self (Values V) = Inr (self', evs) \<and> (k, e) \<in> set V \<and>
      contains e ''value'' \<and> k \<notin> sensors self \<longrightarrow>
        length (filter (\<lambda>s. key s = k) (created evs)) = 1 \<and> k \<in> sensors self') \<and>
   (k \<in> sensors self \<longrightarrow> (\<forall>s \<in> set (created (snd (run self outs))). key s \<noteq> k)) \<and>
   length (filter (\<lambda>s. key s = k) (created (snd (run self outs)))) \<le> 1"
proof (intro conjI allI impI)
  fix V e self' evs
  assume a: "async_update self (Values V) = Inr (self', evs) \<and> (k, e) \<in> set V \<and>
      contains e ''value'' \<and> k \<notin> sensors self"
  then have t: "tick self (Values V) = (self', evs)" by (simp add: tick_def)
  from a have kin: "k \<in> set (keys (copy_values (fetched self) V))"
    using copy_values_adds_key by blast
  obtain logs new where
    r: "tick self (Values V) =
      (self\<lparr>available := True, fetched := copy_values (fetched self) V,
                sensors := sensors self \<union> set (keys (copy_values (fetched self) V))\<rparr>,
       logs @ [Add_Entities new True, Schedule_Update (registered_sensors self) True])"
    using tick_Values [of self V] by (elim exE conjE)
  from r t kin show "k \<in> sensors self'" by auto
  from tick_created_count [of k self "Values V"] t a \<open>k \<in> sensors self'\<close>
  show "length (filter (\<lambda>s. key s = k) (created evs)) = 1" by simp
next
  assume k: "k \<in> sensors self"
  have "length (filter (\<lambda>s. key s = k) (created (snd (run self outs)))) = 0"
    using run_created_count [of k self outs] k by simp
  then show "\<forall>s \<in> set (created (snd (run self outs))). key s \<noteq> k"
    by (simp add: filter_empty_conv)
next
  show "length (filter (\<lambda>s. key s = k) (created (snd (run self outs)))) \<le> 1"
    using run_created_count [of k self outs] by simp
qed

theorem field_materialized_once_witness:
  "(''power_ac'', [(''value'', PInt 5 :: unit pyval), (''unit'', PStr ''W'')]) \<in>
      set [(''power_ac'', [(''value'', PInt 5), (''unit'', PStr ''W'')]),
           (''status'', [(''Code'', PInt 7)])] \<and>
   contains [(''value'', PInt 5 :: unit pyval), (''unit'', PStr ''W'')] ''value'' \<and>
   ''power_ac'' \<notin> sensors (FroniusAdapter ''Fronius Inverter 1 http://x'' 1 :: unit adapter) \<and>
   length (filter (\<lambda>s. key s = ''power_ac'')
      (created (snd (tick (FroniusAdapter ''Fronius Inverter 1 http://x'' 1 :: unit adapter)
         (Values [(''power_ac'', [(''value'', PInt 5), (''unit'', PStr ''W'')]),
                  (''status'', [(''Code'', PInt 7)])]))))) = 1 \<and>
   ''power_ac'' \<in> sensors (fst (tick (FroniusAdapter ''Fronius Inverter 1 http://x'' 1 :: unit adapter)
         (Values [(''power_ac'', [(''value'', PInt 5), (''unit'', PStr ''W'')]),
                  (''status'', [(''Code'', PInt 7)])])))"
proof -
  let ?a = "FroniusAdapter ''Fronius Inverter 1 http://x'' 1 :: unit adapter"
  let ?e = "[(''value'', PInt 5), (''unit'', PStr ''W'')] :: unit entry"
  let ?V = "[(''power_ac'', ?e), (''status'', [(''Code'', PInt 7)])] :: unit fields"
  have h1: "async_update ?a (Values ?V) = Inr (fst (tick ?a (Values ?V)), snd (tick ?a (Values ?V)))"
    using async_update_Values [of ?a ?V] by (auto simp: tick_def)
  have h2: "(''power_ac'', ?e) \<in> set ?V" by simp
  have h3: "contains ?e ''value''" by (simp add: contains_def)
  have h4: "''power_ac'' \<notin> sensors ?a" by (simp add: FroniusAdapter_def)
  from field_materialized_once [of ?a "''power_ac''" "[]"] h1 h2 h3 h4
  have c: "length (filter (\<lambda>s. key s = ''power_ac'') (created (snd (tick ?a (Values ?V))))) = 1 \<and>
        ''power_ac'' \<in> sensors (fst (tick ?a (Values ?V)))"
    by blast
  show ?thesis by (intro conjI h2 h3 h4 conjunct1 [OF c] conjunct2 [OF c])
qed

lemma run_append:
  "run self (xs @ ys) =
     (case run self xs of (s1, e1) \<Rightarrow> (case run s1 ys of (s2, e2) \<Rightarrow> (s2, e1 @ e2)))"
proof (induction xs arbitrary: self)
  case Nil
  show ?case by (simp split: prod.splits)
next
  case (Cons x xs)
  show ?case by (simp add: Cons.IH split: prod.splits)
qed

lemma tick_Values_available: "available (fst (tick self (Values V)))"
  using tick_Values [of self V] by auto

text \<open>
  C2. Starting from an available adapter, two consecutive failed fetches emit exactly one
  error line, on the first failure; and a successful update at any later point leaves the
  adapter available.
\<close>

theorem failure_streak_logged_once:
  fixes self :: "'f adapter"
  assumes "available self"
  shows "error_lines (snd (tick self (FroniusError e1))) = [''Failed to update: '' @ e1] \<and>
         error_lines (snd (tick (fst (tick self (FroniusError e1))) (FroniusError e2))) = [] \<and>
         length (error_lines (snd (run self [FroniusError e1, FroniusError e2]))) = 1 \<and>
         (\<forall>outs V. available
            (fst (run self ([FroniusError e1, FroniusError e2] @ outs @ [Values V]))))"
proof (intro conjI allI)
  show "error_lines (snd (tick self (FroniusError e1))) = [''Failed to update: '' @ e1]"
    using assms by (simp add: tick_FroniusError)
  show "error_lines (snd (tick (fst (tick self (FroniusError e1))) (FroniusError e2))) = []"
    using assms by (simp add: tick_FroniusError)
  show "length (error_lines (snd (run self [FroniusError e1, FroniusError e2]))) = 1"
    using assms by (simp add: tick_FroniusError)
next
  fix outs :: "'f outcome list" and V
  obtain s1 ev1 where r1: "run self ([FroniusError e1, FroniusError e2] @ outs) = (s1, ev1)"
    by (cases "run self ([FroniusError e1, FroniusError e2] @ outs)")
  have "run self (([FroniusError e1, FroniusError e2] @ outs) @ [Values V]) =
          (fst (tick s1 (Values V)), ev1 @ snd (tick s1 (Values V)))"
    unfolding run_append [of self "[FroniusError e1, FroniusError e2] @ outs"] r1
    by (simp split: prod.splits)
  then show "available (fst (run self ([FroniusError e1, FroniusError e2] @ outs @ [Values V])))"
    using tick_Values_available [of s1 V] by simp
qed

theorem failure_streak_logged_once_witness:
  "available (FroniusAdapter ''Fronius Meter 0 http://x'' 0 :: unit adapter) \<and>
   error_lines (snd (run (FroniusAdapter ''Fronius Meter 0 http://x'' 0 :: unit adapter)
      [FroniusError ''no route'', FroniusError ''no route''])) = [''Failed to update: no route''] \<and>
   available (fst (run (FroniusAdapter ''Fronius Meter 0 http://x'' 0 :: unit adapter)
      ([FroniusError ''no route'', FroniusError ''no route''] @ [] @
       [Values [(''power_real'', [(''value'', PInt 3)])]])))"
proof -
  let ?a = "FroniusAdapter ''Fronius Meter 0 http://x'' 0 :: unit adapter"
  have h: "available ?a" by (simp add: FroniusAdapter_def)
  have "error_lines (snd (run ?a [FroniusError ''no route'', FroniusError ''no route'']))
          = [''Failed to update: no route'']"
    by (simp add: tick_def async_update_def FroniusAdapter_def)
  moreover from failure_streak_logged_once [OF h, of "''no route''" "''no route''"]
  have "available (fst (run ?a ([FroniusError ''no route'', FroniusError ''no route''] @ [] @
       [Values [(''power_real'', [(''value'', PInt 3)])]])))"
    by blast
  ultimately show ?thesis using h by (intro conjI)
qed

text \<open>
  C5, as stated, fails: the stored field map is not replaced by the latest response. After
  a first fetch delivering \<open>energy_day\<close> and a second one delivering only \<open>power_ac\<close>, the
  stored map still holds \<open>energy_day\<close>, a key absent from the latest response.
\<close>

theorem stored_map_overwritten_counterexample:
  "contains
     (fetched (fst (run (FroniusAdapter ''Fronius Inverter 1 http://x'' 1 :: unit adapter)
        [Values [(''energy_day'', [(''value'', PInt 40), (''unit'', PStr ''Wh'')])],
         Values [(''power_ac'', [(''value'', PInt 5), (''unit'', PStr ''W'')])]])))
     ''energy_day'' \<and>
   \<not> contains [(''power_ac'', [(''value'', PInt 5 :: unit pyval), (''unit'', PStr ''W'')])]
     ''energy_day''"
  by (simp add: tick_def async_update_def FroniusAdapter_def contains_def keys_def Let_def
      split: prod.splits)

text \<open>
  C5, amended. After a successful update with response \<open>V\<close> the stored field map is the
  previous map overwritten by \<open>V\<close>: every key of \<open>V\<close> whose entry has a \<open>value\<close> component
  maps to that entry, and every other key keeps what it had before (keys of earlier fetches
  stay, as the entities created for them keep reading them).
\<close>

theorem stored_map_accumulates:
  fixes self :: "'f adapter"
  assumes "distinct (keys V)"
    and "async_update self (Values V) = Inr (self', evs)"
  shows "map_of (fetched self') k =
           (case map_of V k of
              Some e \<Rightarrow> if contains e ''value'' then Some e else map_of (fetched self) k
            | None \<Rightarrow> map_of (fetched self) k)"
proof -
  obtain logs new where
    "async_update self (Values V) =
      Inr (self\<lparr>available := True, fetched := copy_values (fetched self) V,
                sensors := sensors self \<union> set (keys (copy_values (fetched self) V))\<rparr>,
           logs @ [Add_Entities new True, Schedule_Update (registered_sensors self) True])"
    using async_update_Values [of self V] by (elim exE conjE)
  with assms(2) have "fetched self' = copy_values (fetched self) V" by auto
  then show ?thesis using map_of_copy_values [OF assms(1)] by simp
qed

theorem stored_map_accumulates_witness:
  "distinct (keys [(''power_ac'', [(''value'', PInt 5 :: unit pyval)]), (''status'', [(''Code'', PInt 7)])]) \<and>
   map_of (fetched (fst (tick
       ((FroniusAdapter ''a'' 1 :: unit adapter)
          \<lparr>fetched := [(''energy_day'', [(''value'', PInt 40)]), (''power_ac'', [(''value'', PInt 4)])],
           sensors := {''energy_day'', ''power_ac''}\<rparr>)
       (Values [(''power_ac'', [(''value'', PInt 5)]), (''status'', [(''Code'', PInt 7)])]))))
     ''energy_day'' = Some [(''value'', PInt 40)] \<and>
   map_of (fetched (fst (tick
       ((FroniusAdapter ''a'' 1 :: unit adapter)
          \<lparr>fetched := [(''energy_day'', [(''value'', PInt 40)]), (''power_ac'', [(''value'', PInt 4)])],
           sensors := {''energy_day'', ''power_ac''}\<rparr>)
       (Values [(''power_ac'', [(''value'', PInt 5)]), (''status'', [(''Code'', PInt 7)])]))))
     ''power_ac'' = Some [(''value'', PInt 5)]"
proof -
  let ?a = "(FroniusAdapter ''a'' 1 :: unit adapter)
          \<lparr>fetched := [(''energy_day'', [(''value'', PInt 40)]), (''power_ac'', [(''value'', PInt 4)])],
           sensors := {''energy_day'', ''power_ac''}\<rparr>"
  let ?V = "[(''power_ac'', [(''value'', PInt 5)]), (''status'', [(''Code'', PInt 7)])] :: unit fields"
  have h1: "distinct (keys ?V)" by (simp add: keys_def)
  have h2: "async_update ?a (Values ?V) = Inr (fst (tick ?a (Values ?V)), snd (tick ?a (Values ?V)))"
    using async_update_Values [of ?a ?V] by (auto simp: tick_def)
  have a: "map_of (fetched (fst (tick ?a (Values ?V)))) ''energy_day'' = Some [(''value'', PInt 40)]"
    using stored_map_accumulates [OF h1 h2, of "''energy_day''"]
    by (simp add: FroniusAdapter_def)
  have b: "map_of (fetched (fst (tick ?a (Values ?V)))) ''power_ac'' = Some [(''value'', PInt 5)]"
    using stored_map_accumulates [OF h1 h2, of "''power_ac''"]
    by (simp add: FroniusAdapter_def contains_def)
  show ?thesis by (intro conjI h1 a b)
qed

lemma run_no_success_unavailable:
  "\<not> available self \<Longrightarrow> \<forall>out \<in> set outs. \<forall>V. out \<noteq> Values V \<Longrightarrow>
     \<not> available (fst (run self outs)) \<and> fetched (fst (run self outs)) = fetched self \<and>
     sensors (fst (run self outs)) = sensors self \<and> created (snd (run self outs)) = []"
proof (induction outs arbitrary: self)
  case Nil
  then show ?case by simp
next
  case (Cons out outs)
  have t: "tick self out = (self, [])"
  proof (cases out)
    case (Values V)
    with Cons.prems(2) show ?thesis by simp
  next
    case (FroniusError e)
    with Cons.prems(1) show ?thesis by (simp add: tick_FroniusError)
  next
    case (OtherException e)
    then show ?thesis by (simp add: tick_OtherException)
  qed
  from Cons.prems(2) have "\<forall>out \<in> set outs. \<forall>V. out \<noteq> Values V" by simp
  from Cons.IH [OF Cons.prems(1) this] show ?case
    by (simp add: t split: prod.splits)
qed

text \<open>
  C6. A failed fetch (\<open>FroniusError\<close>) always returns normally and skips the cycle: the
  stored field map, the seen set and the registered set are as before, nothing is handed to
  the host, and the adapter is unavailable; through every later sequence of cycles without
  a successful fetch it stays unavailable, and so does every entity, and still nothing
  changes or is created.
\<close>

theorem failed_update_is_skipped:
  fixes self :: "'f adapter"
  shows "\<exists>self' evs. async_update self (FroniusError err) = Inr (self', evs) \<and>
     fetched self' = fetched self \<and> sensors self' = sensors self \<and>
     registered_sensors self' = registered_sensors self \<and>
     created evs = [] \<and> (\<forall>new b. Add_Entities new b \<notin> set evs) \<and>
     \<not> available self' \<and>
     (\<forall>outs. (\<forall>out \<in> set outs. \<forall>V. out \<noteq> Values V) \<longrightarrow>
        \<not> available (fst (run self' outs)) \<and>
        (\<forall>s. \<not> sensor_available (fst (run self' outs)) s) \<and>
        fetched (fst (run self' outs)) = fetched self \<and>
        sensors (fst (run self' outs)) = sensors self \<and>
        created (snd (run self' outs)) = [])"
proof (cases "available self")
  case True
  let ?s = "self\<lparr>available := False\<rparr>"
  have na: "\<not> available ?s" by simp
  have "\<forall>outs. (\<forall>out \<in> set outs. \<forall>V. out \<noteq> Values V) \<longrightarrow>
        \<not> available (fst (run ?s outs)) \<and>
        (\<forall>s. \<not> sensor_available (fst (run ?s outs)) s) \<and>
        fetched (fst (run ?s outs)) = fetched self \<and>
        sensors (fst (run ?s outs)) = sensors self \<and>
        created (snd (run ?s outs)) = []"
    using run_no_success_unavailable [OF na] by (simp add: sensor_available_def)
  then show ?thesis
    using True
    by (intro exI[of _ ?s] exI[of _ "[Log_Error (''Failed to update: '' @ err)]"])
       (simp add: async_update_FroniusError)
next
  case False
  have "\<forall>outs. (\<forall>out \<in> set outs. \<forall>V. out \<noteq> Values V) \<longrightarrow>
        \<not> available (fst (run self outs)) \<and>
        (\<forall>s. \<not> sensor_available (fst (run self outs)) s) \<and>
        fetched (fst (run self outs)) = fetched self \<and>
        sensors (fst (run self outs)) = sensors self \<and>
        created (snd (run self outs)) = []"
    using run_no_success_unavailable [OF False] by (simp add: sensor_available_def)
  then show ?thesis
    using False
    by (intro exI[of _ self] exI[of _ "[]"]) (simp add: async_update_FroniusError)
qed


theorem failed_update_is_skipped_witness:
  "\<not> available (fst (run (fst (tick
       ((FroniusAdapter ''a'' 1 :: unit adapter)
          \<lparr>fetched := [(''energy_day'', [(''value'', PInt 40)])], sensors := {''energy_day''}\<rparr>)
       (FroniusError ''timeout'')))
     [FroniusError ''timeout'', OtherException ''cancelled''])) \<and>
   fetched (fst (tick
       ((FroniusAdapter ''a'' 1 :: unit adapter)
          \<lparr>fetched := [(''energy_day'', [(''value'', PInt 40)])], sensors := {''energy_day''}\<rparr>)
       (FroniusError ''timeout''))) = [(''energy_day'', [(''value'', PInt 40)])]"
proof -
  let ?a = "(FroniusAdapter ''a'' 1 :: unit adapter)
          \<lparr>fetched := [(''energy_day'', [(''value'', PInt 40)])], sensors := {''energy_day''}\<rparr>"
  let ?outs = "[FroniusError ''timeout'', OtherException ''cancelled''] :: unit outcome list"
  have h: "\<forall>out \<in> set ?outs. \<forall>V. out \<noteq> Values V" by simp
  obtain self' evs where
    r: "async_update ?a (FroniusError ''timeout'') = Inr (self', evs) \<and>
     fetched self' = fetched ?a \<and> sensors self' = sensors ?a \<and>
     registered_sensors self' = registered_sensors ?a \<and>
     created evs = [] \<and> (\<forall>new b. Add_Entities new b \<notin> set evs) \<and>
     \<not> available self' \<and>
     (\<forall>outs. (\<forall>out \<in> set outs. \<forall>V. out \<noteq> Values V) \<longrightarrow>
        \<not> available (fst (run self' outs)) \<and>
        (\<forall>s. \<not> sensor_available (fst (run self' outs)) s) \<and>
        fetched (fst (run self' outs)) = fetched ?a \<and>
        sensors (fst (run self' outs)) = sensors ?a \<and>
        created (snd (run self' outs)) = [])"
    using failed_update_is_skipped [of ?a "''timeout''"] by (elim exE)
  from r have t: "fst (tick ?a (FroniusError ''timeout'')) = self'" by (simp add: tick_def)
  from r h have a: "\<not> available (fst (run self' ?outs))" by blast
  from r have b: "fetched self' = [(''energy_day'', [(''value'', PInt 40)])]"
    by (simp add: FroniusAdapter_def)
  show ?thesis unfolding t by (intro conjI a b)
qed

lemma trace_length: "length (trace self outs) = Suc (length outs)"
  by (induction outs arbitrary: self) simp_all

lemma trace_nth_Suc:
  "i < length outs \<Longrightarrow> trace self outs ! Suc i = fst (tick (trace self outs ! i) (outs ! i))"
proof (induction outs arbitrary: self i)
  case Nil
  then show ?case by simp
next
  case (Cons out outs)
  show ?case
  proof (cases i)
    case 0
    show ?thesis by (cases outs) (simp_all add: 0)
  next
    case (Suc j)
    with Cons.prems have "j < length outs" by simp
    from Cons.IH [OF this, of "fst (tick self out)"] show ?thesis by (simp add: Suc)
  qed
qed

lemma trace_last: "trace self outs ! length outs = fst (run self outs)"
proof (induction outs arbitrary: self)
  case Nil
  show ?case by simp
next
  case (Cons out outs)
  show ?case using Cons.IH [of "fst (tick self out)"] by (simp split: prod.splits)
qed

text \<open>
  C7. In any sequence of polling cycles the available flag goes from true to false only in
  a cycle whose fetch fails with \<open>FroniusError\<close>; a successful update leaves it true; a
  failure while it is already false changes nothing at all.
\<close>

theorem available_cleared_only_by_first_failure:
  fixes self :: "'f adapter"
  assumes "i < length outs"
  shows "(available (trace self outs ! i) \<and> \<not> available (trace self outs ! Suc i) \<longrightarrow>
            (\<exists>err. outs ! i = FroniusError err)) \<and>
         ((\<exists>V. outs ! i = Values V) \<longrightarrow> available (trace self outs ! Suc i)) \<and>
         (\<not> available (trace self outs ! i) \<and> (\<exists>err. outs ! i = FroniusError err) \<longrightarrow>
            trace self outs ! Suc i = trace self outs ! i) \<and>
         (available (trace self outs ! i) \<and> (\<exists>err. outs ! i = FroniusError err) \<longrightarrow>
            \<not> available (trace self outs ! Suc i))"
proof -
  let ?b = "trace self outs ! i"
  have step: "trace self outs ! Suc i = fst (tick ?b (outs ! i))"
    by (rule trace_nth_Suc [OF assms])
  show ?thesis
  proof (cases "outs ! i")
    case (Values V)
    then show ?thesis using tick_Values_available [of ?b V] by (simp add: step)
  next
    case (FroniusError err)
    then show ?thesis by (simp add: step tick_FroniusError)
  next
    case (OtherException e)
    then show ?thesis by (simp add: step tick_OtherException)
  qed
qed

theorem available_cleared_only_by_first_failure_witness:
  "(1::nat) < length [Values [], FroniusError ''timeout'', FroniusError ''timeout'' :: unit outcome] \<and>
   available (trace (FroniusAdapter ''a'' 1 :: unit adapter)
      [Values [], FroniusError ''timeout'', FroniusError ''timeout''] ! 1) \<and>
   \<not> available (trace (FroniusAdapter ''a'' 1 :: unit adapter)
      [Values [], FroniusError ''timeout'', FroniusError ''timeout''] ! Suc 1)"
proof -
  let ?a = "FroniusAdapter ''a'' 1 :: unit adapter"
  let ?outs = "[Values [], FroniusError ''timeout'', FroniusError ''timeout''] :: unit outcome list"
  have h: "(1::nat) < length ?outs" by simp
  have a: "available (trace ?a ?outs ! 1)"
    using tick_Values_available [of ?a "[]"] by simp
  have e: "\<exists>err. ?outs ! 1 = FroniusError err" by simp
  from available_cleared_only_by_first_failure [OF h, of ?a] a e
  have b: "\<not> available (trace ?a ?outs ! Suc 1)" by blast
  show ?thesis by (intro conjI h a b)
qed

lemma async_update_created_keys:
  fixes self :: "'f adapter"
  assumes "async_update self (Values V) = Inr (self', evs)"
  shows "fetched self' = copy_values (fetched self) V"
    and "registered_sensors self' = registered_sensors self"
    and "\<forall>s \<in> set (created evs). key s \<in> set (keys (fetched self'))"
proof -
  obtain logs new where
    r: "async_update self (Values V) =
      Inr (self\<lparr>available := True, fetched := copy_values (fetched self) V,
                sensors := sensors self \<union> set (keys (copy_values (fetched self) V))\<rparr>,
           logs @ [Add_Entities new True, Schedule_Update (registered_sensors self) True]) \<and>
      created logs = [] \<and> error_lines logs = [] \<and>
      (\<forall>s \<in> set new. s = FroniusTemplateSensor (name self) (key s)) \<and>
      (\<forall>k. length (filter (\<lambda>s. key s = k) new) =
             (if k \<in> set (keys (copy_values (fetched self) V)) \<and> k \<notin> sensors self then 1 else 0))"
    using async_update_Values [of self V] by (elim exE)
  from r assms show f: "fetched self' = copy_values (fetched self) V" by auto
  from r assms show "registered_sensors self' = registered_sensors self" by auto
  from r assms have c: "created evs = new" by (auto simp: created_append)
  show "\<forall>s \<in> set (created evs). key s \<in> set (keys (fetched self'))"
  proof
    fix s assume "s \<in> set (created evs)"
    with c have "s \<in> set (filter (\<lambda>t. key t = key s) new)" by simp
    then have "filter (\<lambda>t. key t = key s) new \<noteq> []" by (metis empty_iff list.set(1))
    then have "length (filter (\<lambda>t. key t = key s) new) \<noteq> 0" by simp
    moreover from r have "length (filter (\<lambda>t. key t = key s) new) =
             (if key s \<in> set (keys (copy_values (fetched self) V)) \<and> key s \<notin> sensors self
              then 1 else 0)" by blast
    ultimately have "key s \<in> set (keys (copy_values (fetched self) V))"
      by (simp split: if_splits)
    with f show "key s \<in> set (keys (fetched self'))" by simp
  qed
qed

lemma sensor_async_update_key:
  "sensor_async_update rnd p s = Inr s' \<Longrightarrow> key s' = key s"
  by (auto simp: sensor_async_update_def split: option.splits)

lemma host_step_keys_mono:
  "set (keys (fetched (parent sys))) \<subseteq> set (keys (fetched (parent (host_step rnd sys act))))"
proof (cases act)
  case (Poll out)
  show ?thesis
  proof (cases out)
    case (Values V)
    obtain self' evs where a: "async_update (parent sys) (Values V) = Inr (self', evs)"
      using async_update_Values [of "parent sys" V] by blast
    from async_update_created_keys(1) [OF a] copy_values_keys_mono [of "fetched (parent sys)" V]
    show ?thesis by (simp add: host_step_def Poll Values a)
  next
    case (FroniusError err)
    then show ?thesis by (simp add: host_step_def Poll async_update_FroniusError)
  next
    case (OtherException e)
    then show ?thesis by (simp add: host_step_def Poll async_update_def)
  qed
next
  case (Added_To_Hass i)
  then show ?thesis by (simp add: host_step_def register_def)
next
  case (Removed i)
  then show ?thesis by (simp add: host_step_def unregister_def)
next
  case (Entity_Update i)
  then show ?thesis by (simp add: host_step_def split: sum.splits)
qed

lemma host_step_invariant:
  assumes "entities_have_fields sys"
  shows "entities_have_fields (host_step rnd sys act)"
proof (cases act)
  case (Poll out)
  show ?thesis
  proof (cases out)
    case (Values V)
    obtain self' evs where a: "async_update (parent sys) (Values V) = Inr (self', evs)"
      using async_update_Values [of "parent sys" V] by blast
    note k = async_update_created_keys [OF a]
    have st: "host_step rnd sys act = \<lparr> parent = self', entities = entities sys @ created evs \<rparr>"
      by (simp add: host_step_def Poll Values a)
    have old: "\<forall>i < length (entities sys). key (entities sys ! i) \<in> set (keys (fetched self'))"
      using assms k(1) copy_values_keys_mono [of "fetched (parent sys)" V]
      by (auto simp: entities_have_fields_def)
    have "\<forall>i < length (entities sys @ created evs).
            key ((entities sys @ created evs) ! i) \<in> set (keys (fetched self'))"
    proof (intro allI impI)
      fix i assume i: "i < length (entities sys @ created evs)"
      show "key ((entities sys @ created evs) ! i) \<in> set (keys (fetched self'))"
      proof (cases "i < length (entities sys)")
        case True
        with old show ?thesis by (simp add: nth_append)
      next
        case False
        with i have "created evs ! (i - length (entities sys)) \<in> set (created evs)" by simp
        with k(3) False show ?thesis by (simp add: nth_append)
      qed
    qed
    moreover have "\<forall>i \<in> registered_sensors self'. i < length (entities sys @ created evs)"
      using assms k(2) by (auto simp: entities_have_fields_def)
    ultimately show ?thesis by (simp add: st entities_have_fields_def)
  next
    case (FroniusError err)
    with assms show ?thesis
      by (simp add: host_step_def Poll async_update_FroniusError entities_have_fields_def)
  next
    case (OtherException e)
    with assms show ?thesis by (simp add: host_step_def Poll async_update_def)
  qed
next
  case (Added_To_Hass i)
  with assms show ?thesis
    by (auto simp: host_step_def register_def entities_have_fields_def)
next
  case (Removed i)
  with assms show ?thesis
    by (auto simp: host_step_def unregister_def entities_have_fields_def)
next
  case (Entity_Update i)
  show ?thesis
  proof (cases "i < length (entities sys)")
    case False
    with assms show ?thesis by (simp add: host_step_def Entity_Update)
  next
    case True
    show ?thesis
    proof (cases "sensor_async_update rnd (parent sys) (entities sys ! i)")
      case (Inl e)
      with assms True show ?thesis by (simp add: host_step_def Entity_Update)
    next
      case (Inr s')
      from sensor_async_update_key [OF Inr] have ks: "key s' = key (entities sys ! i)" .
      have st: "host_step rnd sys act = sys\<lparr>entities := (entities sys)[i := s']\<rparr>"
        by (simp add: host_step_def Entity_Update True Inr)
      have "\<forall>j < length (entities sys). key ((entities sys)[i := s'] ! j) \<in> set (keys (fetched (parent sys)))"
      proof (intro allI impI)
        fix j assume j: "j < length (entities sys)"
        with assms have "key (entities sys ! j) \<in> set (keys (fetched (parent sys)))"
          by (simp add: entities_have_fields_def)
        with ks j show "key ((entities sys)[i := s'] ! j) \<in> set (keys (fetched (parent sys)))"
          by (cases "j = i") (simp_all add: nth_list_update)
      qed
      with assms show ?thesis by (simp add: st entities_have_fields_def)
    qed
  qed
qed

lemma exec_invariant:
  "entities_have_fields sys \<Longrightarrow> entities_have_fields (exec rnd sys acts)"
  by (induction acts arbitrary: sys) (simp_all add: host_step_invariant)

lemma exec_keys_mono:
  "set (keys (fetched (parent sys))) \<subseteq> set (keys (fetched (parent (exec rnd sys acts))))"
proof (induction acts arbitrary: sys)
  case Nil
  show ?case by simp
next
  case (Cons act acts)
  from host_step_keys_mono [of sys rnd act] Cons.IH [of "host_step rnd sys act"]
  show ?case by auto
qed

lemma initial_invariant: "entities_have_fields (initial n d)"
  by (simp add: entities_have_fields_def initial_def FroniusAdapter_def)

lemma sensor_async_update_ok:
  "key s \<in> set (keys (fetched p)) \<Longrightarrow> \<exists>s'. sensor_async_update rnd p s = Inr s'"
  by (auto simp: sensor_async_update_def keys_def map_of_eq_None_iff split: option.splits)

text \<open>
  C10. Keys are only ever added to the stored field map (over any sequence of host
  callbacks the key set grows), an entity is created only for a key of that map, and so,
  in every state the system reaches from its start, each registered entity exists, its key
  is present in the parent's map, and its \<open>async_update\<close> returns normally (it never calls
  \<open>.get\<close> on \<open>None\<close>).
\<close>

theorem registered_entity_reads_present_field:
  fixes rnd :: "'f \<Rightarrow> 'f"
  shows
  "set (keys (fetched (parent sys))) \<subseteq> set (keys (fetched (parent (exec rnd sys acts)))) \<and>
   (\<forall>V self' evs. async_update self (Values V) = Inr (self', evs) \<longrightarrow>
      (\<forall>s \<in> set (created evs). contains (fetched self') (key s))) \<and>
   (\<forall>i \<in> registered_sensors (parent (exec rnd (initial n d) acts)).
      i < length (entities (exec rnd (initial n d) acts)) \<and>
      contains (fetched (parent (exec rnd (initial n d) acts)))
        (key (entities (exec rnd (initial n d) acts) ! i)) \<and>
      (\<exists>s'. sensor_async_update rnd (parent (exec rnd (initial n d) acts))
               (entities (exec rnd (initial n d) acts) ! i) = Inr s'))"
proof (intro conjI allI impI ballI)
  show "set (keys (fetched (parent sys))) \<subseteq> set (keys (fetched (parent (exec rnd sys acts))))"
    by (rule exec_keys_mono)
next
  fix V self' evs s
  assume "async_update self (Values V) = Inr (self', evs)" and "s \<in> set (created evs)"
  with async_update_created_keys(3) show "contains (fetched self') (key s)"
    unfolding contains_keys by blast
next
  let ?sys = "exec rnd (initial n d :: 'f system) acts"
  fix i assume i: "i \<in> registered_sensors (parent ?sys)"
  have inv: "entities_have_fields ?sys"
    by (rule exec_invariant [OF initial_invariant])
  with i show len: "i < length (entities ?sys)" by (simp add: entities_have_fields_def)
  with inv have k: "key (entities ?sys ! i) \<in> set (keys (fetched (parent ?sys)))"
    by (simp add: entities_have_fields_def)
  then show "contains (fetched (parent ?sys)) (key (entities ?sys ! i))"
    by (simp add: contains_keys)
  from sensor_async_update_ok [OF k]
  show "\<exists>s'. sensor_async_update rnd (parent ?sys) (entities ?sys ! i) = Inr s'" .
qed



theorem registered_entity_reads_present_field_witness:
  "(0::nat) \<in> registered_sensors (parent (exec (\<lambda>x. x) (initial ''a'' 1 :: unit system)
      [Poll (Values [(''power_ac'', [(''value'', PInt 5)])]), Added_To_Hass 0,
       Poll (Values [(''energy_day'', [(''value'', PInt 40)])])])) \<and>
   contains
     (fetched (parent (exec (\<lambda>x. x) (initial ''a'' 1 :: unit system)
      [Poll (Values [(''power_ac'', [(''value'', PInt 5)])]), Added_To_Hass 0,
       Poll (Values [(''energy_day'', [(''value'', PInt 40)])])])))
     (key (entities (exec (\<lambda>x. x) (initial ''a'' 1 :: unit system)
      [Poll (Values [(''power_ac'', [(''value'', PInt 5)])]), Added_To_Hass 0,
       Poll (Values [(''energy_day'', [(''value'', PInt 40)])])]) ! 0))"
proof -
  let ?acts = "[Poll (Values [(''power_ac'', [(''value'', PInt 5)])]), Added_To_Hass 0,
       Poll (Values [(''energy_day'', [(''value'', PInt 40)])])] :: unit action list"
  let ?sys = "exec (\<lambda>x. x) (initial ''a'' 1 :: unit system) ?acts"
  have h: "(0::nat) \<in> registered_sensors (parent ?sys)"
    by (simp add: host_step_def initial_def async_update_def FroniusAdapter_def contains_def
        keys_def register_def Let_def)
  from registered_entity_reads_present_field
         [where 'f = unit and rnd = "\<lambda>x. x :: unit" and n = "''a''" and d = 1 and acts = ?acts] h
  have "contains (fetched (parent ?sys)) (key (entities ?sys ! 0))" by blast
  with h show ?thesis by (intro conjI)
qed

subsection \<open>The device-index validator\<close>

lemma contains_setitem: "contains (setitem k v d) k"
  by (simp add: contains_def map_of_setitem)

lemma setitem_absent: "\<not> contains d k \<Longrightarrow> setitem k v d = d @ [(k, v)]"
proof (induction d)
  case Nil
  show ?case by simp
next
  case (Cons p d)
  from Cons.prems have "fst p \<noteq> k" and "\<not> contains d k"
    by (auto simp: contains_def split: if_splits)
  with Cons.IH show ?case by simp
qed

lemma set_default_device_idem:
  "set_default_device c = Inr c' \<Longrightarrow> set_default_device c' = Inr c'"
  by (auto simp: set_default_device_def contains_setitem split: if_splits option.splits)

lemma set_default_device_present:
  "contains c CONF_DEVICE \<Longrightarrow> set_default_device c = Inr c"
  by (simp add: set_default_device_def)

lemma set_default_device_absent:
  assumes "\<not> contains c CONF_DEVICE" and "set_default_device c = Inr c'"
  shows "c' = c @ [(CONF_DEVICE,
            CInt (if map_of c CONF_SENSOR_TYPE = Some (CStr TYPE_INVERTER) then 1 else 0))]"
  using assms
  by (auto simp: set_default_device_def setitem_absent DEFAULT_INVERTER_def DEFAULT_DEVICE_def
      split: if_splits option.splits)

lemma set_default_device_total:
  "contains c CONF_DEVICE \<or> contains c CONF_SENSOR_TYPE \<Longrightarrow> \<exists>c'. set_default_device c = Inr c'"
  by (auto simp: set_default_device_def contains_def split: option.splits)

lemma device_id_loop_frame:
  "device_id_loop st bs = (st', r) \<Longrightarrow>
     length st' = length st \<and> (\<forall>x. x \<notin> set bs \<longrightarrow> st' ! x = st ! x)"
proof (induction bs arbitrary: st)
  case Nil
  then show ?case by simp
next
  case (Cons b bs)
  show ?case
  proof (cases "set_default_device (st ! b)")
    case (Inl e)
    with Cons.prems show ?thesis by simp
  next
    case (Inr c)
    with Cons.prems have "device_id_loop (st[b := c]) bs = (st', r)" by simp
    from Cons.IH [OF this] show ?thesis by auto
  qed
qed

lemma device_id_loop_done:
  "device_id_loop st bs = (st', None) \<Longrightarrow> \<forall>b \<in> set bs. b < length st \<Longrightarrow>
     (\<forall>x \<in> set bs. set_default_device (st ! x) = Inr (st' ! x))"
proof (induction bs arbitrary: st)
  case Nil
  then show ?case by simp
next
  case (Cons b bs)
  show ?case
  proof (cases "set_default_device (st ! b)")
    case (Inl e)
    with Cons.prems show ?thesis by simp
  next
    case (Inr c)
    let ?st1 = "st[b := c]"
    from Inr Cons.prems have l: "device_id_loop ?st1 bs = (st', None)" by simp
    from Cons.prems(2) have bnd: "\<forall>x \<in> set bs. x < length ?st1" and b: "b < length st" by simp_all
    note ih = Cons.IH [OF l bnd]
    note fr = device_id_loop_frame [OF l]
    show ?thesis
    proof
      fix x assume x: "x \<in> set (b # bs)"
      show "set_default_device (st ! x) = Inr (st' ! x)"
      proof (cases "x = b")
        case True
        show ?thesis
        proof (cases "b \<in> set bs")
          case True
          with ih have "set_default_device (?st1 ! b) = Inr (st' ! b)" by blast
          with b have "set_default_device c = Inr (st' ! b)" by simp
          with set_default_device_idem [OF Inr] have "st' ! b = c" by simp
          with Inr \<open>x = b\<close> show ?thesis by simp
        next
          case False
          with fr have "st' ! b = ?st1 ! b" by blast
          with b Inr \<open>x = b\<close> show ?thesis by simp
        qed
      next
        case False
        with x have "x \<in> set bs" by simp
        with ih have "set_default_device (?st1 ! x) = Inr (st' ! x)" by blast
        with False show ?thesis by simp
      qed
    qed
  qed
qed

lemma device_id_loop_total:
  "\<forall>b \<in> set bs. b < length st \<and> (\<exists>c. set_default_device (st ! b) = Inr c) \<Longrightarrow>
     \<exists>st'. device_id_loop st bs = (st', None)"
proof (induction bs arbitrary: st)
  case Nil
  show ?case by simp
next
  case (Cons b bs)
  from Cons.prems obtain c where c: "set_default_device (st ! b) = Inr c" and b: "b < length st"
    by auto
  have "\<forall>x \<in> set bs. x < length (st[b := c]) \<and> (\<exists>c'. set_default_device (st[b := c] ! x) = Inr c')"
  proof
    fix x assume x: "x \<in> set bs"
    with Cons.prems have xs: "x < length st" "\<exists>c'. set_default_device (st ! x) = Inr c'" by auto
    show "x < length (st[b := c]) \<and> (\<exists>c'. set_default_device (st[b := c] ! x) = Inr c')"
    proof (cases "x = b")
      case True
      with b set_default_device_idem [OF c] show ?thesis by auto
    next
      case False
      with xs show ?thesis by simp
    qed
  qed
  from Cons.IH [OF this] c show ?case by simp
qed

lemma deepcopy_conds_props:
  assumes "take n st = st0" and "length st0 = n"
    and "\<forall>a \<in> set rest. a < n"
    and "\<forall>(a, b) \<in> set memo. a < n \<and> n \<le> b \<and> b < length st \<and> st ! b = st0 ! a"
    and "deepcopy_conds memo st rest = (st', bs)"
  shows "take (length st) st' = st \<and> length bs = length rest \<and>
         (\<forall>i < length rest. n \<le> bs ! i \<and> bs ! i < length st' \<and> st' ! (bs ! i) = st0 ! (rest ! i))"
  using assms
proof (induction rest arbitrary: memo st st' bs)
  case Nil
  then show ?case by simp
next
  case (Cons a rest)
  from Cons.prems(1,2) have n: "n \<le> length st" by auto
  from Cons.prems(3) have a: "a < n" and rest: "\<forall>a \<in> set rest. a < n" by simp_all
  from Cons.prems(1) a n have sta: "st ! a = st0 ! a"
    by (metis nth_take)
  show ?case
  proof (cases "map_of memo a")
    case (Some b)
    obtain st1 bs1 where r: "deepcopy_conds memo st rest = (st1, bs1)"
      by (cases "deepcopy_conds memo st rest")
    with Some Cons.prems(5) have eq: "st' = st1" "bs = b # bs1" by simp_all
    note ih = Cons.IH [OF Cons.prems(1,2) rest Cons.prems(4) r]
    from Some have "(a, b) \<in> set memo" by (rule map_of_SomeD)
    with Cons.prems(4) have b: "n \<le> b" "b < length st" "st ! b = st0 ! a" by auto
    from ih have tk: "take (length st) st1 = st" by simp
    then have len: "length st \<le> length st1"
      by (metis length_take min.cobounded2 min_def nat_le_linear)
    from tk b(2) have "st1 ! b = st ! b" by (metis nth_take)
    with b len have b0: "n \<le> b \<and> b < length st1 \<and> st1 ! b = st0 ! a" by simp
    have "\<forall>i < length (a # rest). n \<le> (b # bs1) ! i \<and> (b # bs1) ! i < length st1 \<and>
            st1 ! ((b # bs1) ! i) = st0 ! ((a # rest) ! i)"
    proof (intro allI impI)
      fix i assume "i < length (a # rest)"
      then show "n \<le> (b # bs1) ! i \<and> (b # bs1) ! i < length st1 \<and>
            st1 ! ((b # bs1) ! i) = st0 ! ((a # rest) ! i)"
        using b0 ih by (cases i) simp_all
    qed
    with ih show ?thesis unfolding eq by simp
  next
    case None
    let ?st2 = "st @ [st ! a]"
    let ?memo2 = "(a, length st) # memo"
    obtain st1 bs1 where r: "deepcopy_conds ?memo2 ?st2 rest = (st1, bs1)"
      by (cases "deepcopy_conds ?memo2 ?st2 rest")
    with None Cons.prems(5) have eq: "st' = st1" "bs = length st # bs1" by simp_all
    have p1: "take n ?st2 = st0" using Cons.prems(1) n by simp
    have p4: "\<forall>(a', b) \<in> set ?memo2. a' < n \<and> n \<le> b \<and> b < length ?st2 \<and> ?st2 ! b = st0 ! a'"
      using Cons.prems(4) a n sta by (auto simp: nth_append)
    note ih = Cons.IH [OF p1 Cons.prems(2) rest p4 r]
    from ih have tk2: "take (length ?st2) st1 = ?st2" by simp
    then have len2: "length ?st2 \<le> length st1"
      by (metis length_take min.cobounded2 min_def nat_le_linear)
    have tk: "take (length st) st1 = st"
    proof -
      have "take (length st) st1 = take (length st) (take (length ?st2) st1)" by simp
      also have "\<dots> = take (length st) ?st2" by (simp only: tk2)
      also have "\<dots> = st" by simp
      finally show ?thesis .
    qed
    have "st1 ! length st = ?st2 ! length st"
      using tk2 by (metis length_append_singleton lessI nth_take)
    then have b0: "n \<le> length st \<and> length st < length st1 \<and> st1 ! length st = st0 ! a"
      using n len2 sta by simp
    have "\<forall>i < length (a # rest). n \<le> (length st # bs1) ! i \<and> (length st # bs1) ! i < length st1 \<and>
            st1 ! ((length st # bs1) ! i) = st0 ! ((a # rest) ! i)"
    proof (intro allI impI)
      fix i assume "i < length (a # rest)"
      then show "n \<le> (length st # bs1) ! i \<and> (length st # bs1) ! i < length st1 \<and>
            st1 ! ((length st # bs1) ! i) = st0 ! ((a # rest) ! i)"
        using b0 ih by (cases i) simp_all
    qed
    with ih tk show ?thesis unfolding eq by simp
  qed
qed


lemma device_id_validator_result:
  assumes valid: "\<forall>a \<in> set (monitored_conditions config). a < length st"
    and run: "device_id_validator st config = (st', res)"
  shows "take (length st) st' = st"
    and "res = Inr cfg' \<Longrightarrow>
           cfg' = config\<lparr>monitored_conditions := monitored_conditions cfg'\<rparr> \<and>
           length (monitored_conditions cfg') = length (monitored_conditions config) \<and>
           (\<forall>i < length (monitored_conditions config).
              length st \<le> monitored_conditions cfg' ! i \<and>
              monitored_conditions cfg' ! i < length st' \<and>
              set_default_device (st ! (monitored_conditions config ! i)) =
                Inr (st' ! (monitored_conditions cfg' ! i)))"
proof -
  let ?conds = "monitored_conditions config"
  obtain st1 bs where dc: "deepcopy_conds [] st ?conds = (st1, bs)"
    by (cases "deepcopy_conds [] st ?conds")
  obtain st2 r where lp: "device_id_loop st1 bs = (st2, r)"
    by (cases "device_id_loop st1 bs")
  have "take (length st) st = st" by simp
  from deepcopy_conds_props [OF this refl valid _ dc]
  have tk1: "take (length st) st1 = st" and lb: "length bs = length ?conds"
    and el: "\<forall>i < length ?conds. length st \<le> bs ! i \<and> bs ! i < length st1 \<and>
               st1 ! (bs ! i) = st ! (?conds ! i)"
    by simp_all
  from tk1 have len1: "length st \<le> length st1"
    by (metis length_take min.cobounded2 min_def nat_le_linear)
  note fr = device_id_loop_frame [OF lp]
  have st': "st' = st2" using run dc lp
    by (cases r) (simp_all add: device_id_validator_def)
  have fresh: "\<forall>x < length st. x \<notin> set bs"
  proof (intro allI impI)
    fix x assume x: "x < length st"
    show "x \<notin> set bs"
    proof
      assume "x \<in> set bs"
      then obtain i where "i < length bs" "bs ! i = x" by (auto simp: in_set_conv_nth)
      with el lb have "length st \<le> x" by auto
      with x show False by simp
    qed
  qed
  show "take (length st) st' = st"
  proof (rule nth_equalityI)
    show "length (take (length st) st') = length st"
      using fr len1 st' by simp
  next
    fix i assume "i < length (take (length st) st')"
    then have i: "i < length st" by simp
    with fresh fr have "st2 ! i = st1 ! i" by blast
    also from tk1 i have "st1 ! i = st ! i" by (metis nth_take)
    finally show "take (length st) st' ! i = st ! i" using i st' by simp
  qed
  assume res: "res = Inr cfg'"
  with run dc lp have r: "r = None" and cfg': "cfg' = config\<lparr>monitored_conditions := bs\<rparr>"
    by (cases r; simp add: device_id_validator_def)+
  have bnd: "\<forall>b \<in> set bs. b < length st1"
    using el lb by (auto simp: in_set_conv_nth)
  from lp r have "device_id_loop st1 bs = (st2, None)" by simp
  note dn = device_id_loop_done [OF this bnd]
  have "\<forall>i < length ?conds. length st \<le> bs ! i \<and> bs ! i < length st2 \<and>
            set_default_device (st ! (?conds ! i)) = Inr (st2 ! (bs ! i))"
  proof (intro allI impI)
    fix i assume i: "i < length ?conds"
    with lb have "bs ! i \<in> set bs" by simp
    with dn have "set_default_device (st1 ! (bs ! i)) = Inr (st2 ! (bs ! i))" by blast
    with el i fr show "length st \<le> bs ! i \<and> bs ! i < length st2 \<and>
            set_default_device (st ! (?conds ! i)) = Inr (st2 ! (bs ! i))" by simp
  qed
  with lb show "cfg' = config\<lparr>monitored_conditions := monitored_conditions cfg'\<rparr> \<and>
           length (monitored_conditions cfg') = length (monitored_conditions config) \<and>
           (\<forall>i < length (monitored_conditions config).
              length st \<le> monitored_conditions cfg' ! i \<and>
              monitored_conditions cfg' ! i < length st' \<and>
              set_default_device (st ! (monitored_conditions config ! i)) =
                Inr (st' ! (monitored_conditions cfg' ! i)))"
    by (simp add: cfg' st')
qed

lemma device_id_validator_total:
  assumes valid: "\<forall>a \<in> set (monitored_conditions config). a < length st"
    and ok: "\<forall>a \<in> set (monitored_conditions config). \<exists>c. set_default_device (st ! a) = Inr c"
  shows "\<exists>st' cfg'. device_id_validator st config = (st', Inr cfg')"
proof -
  let ?conds = "monitored_conditions config"
  obtain st1 bs where dc: "deepcopy_conds [] st ?conds = (st1, bs)"
    by (cases "deepcopy_conds [] st ?conds")
  have "take (length st) st = st" by simp
  from deepcopy_conds_props [OF this refl valid _ dc]
  have lb: "length bs = length ?conds"
    and el: "\<forall>i < length ?conds. length st \<le> bs ! i \<and> bs ! i < length st1 \<and>
               st1 ! (bs ! i) = st ! (?conds ! i)"
    by simp_all
  have "\<forall>b \<in> set bs. b < length st1 \<and> (\<exists>c. set_default_device (st1 ! b) = Inr c)"
  proof
    fix b assume "b \<in> set bs"
    then obtain i where i: "i < length bs" "bs ! i = b" by (auto simp: in_set_conv_nth)
    with lb have "?conds ! i \<in> set ?conds" by simp
    with ok have "\<exists>c. set_default_device (st ! (?conds ! i)) = Inr c" by blast
    with el i lb show "b < length st1 \<and> (\<exists>c. set_default_device (st1 ! b) = Inr c)" by auto
  qed
  from device_id_loop_total [OF this] obtain st2 where "device_id_loop st1 bs = (st2, None)" ..
  with dc show ?thesis by (simp add: device_id_validator_def)
qed

text \<open>
  C3. On a configuration whose monitored conditions each carry a sensor type (what the
  schema's required key guarantees before the validator runs), the validator returns
  normally, and every condition without a device index comes back with index 1 when its
  sensor type is the inverter type and with index 0 for every other sensor type.
\<close>

theorem missing_device_index_default:
  assumes valid: "\<forall>a \<in> set (monitored_conditions config). a < length st"
    and typed: "\<forall>a \<in> set (monitored_conditions config). contains (st ! a) CONF_SENSOR_TYPE"
  shows "\<exists>st' cfg'. device_id_validator st config = (st', Inr cfg') \<and>
           length (monitored_conditions cfg') = length (monitored_conditions config) \<and>
           (\<forall>i < length (monitored_conditions config).
              \<not> contains (st ! (monitored_conditions config ! i)) CONF_DEVICE \<longrightarrow>
              map_of (st' ! (monitored_conditions cfg' ! i)) CONF_DEVICE =
                Some (CInt (if map_of (st ! (monitored_conditions config ! i)) CONF_SENSOR_TYPE
                                = Some (CStr TYPE_INVERTER)
                            then 1 else 0)))"
proof -
  have "\<forall>a \<in> set (monitored_conditions config). \<exists>c. set_default_device (st ! a) = Inr c"
    using typed set_default_device_total by blast
  from device_id_validator_total [OF valid this] obtain st' cfg' where
    r: "device_id_validator st config = (st', Inr cfg')" by blast
  note p = device_id_validator_result(2) [OF valid r refl]
  have "\<forall>i < length (monitored_conditions config).
              \<not> contains (st ! (monitored_conditions config ! i)) CONF_DEVICE \<longrightarrow>
              map_of (st' ! (monitored_conditions cfg' ! i)) CONF_DEVICE =
                Some (CInt (if map_of (st ! (monitored_conditions config ! i)) CONF_SENSOR_TYPE
                                = Some (CStr TYPE_INVERTER)
                            then 1 else 0))"
  proof (intro allI impI)
    fix i assume i: "i < length (monitored_conditions config)"
      and nd: "\<not> contains (st ! (monitored_conditions config ! i)) CONF_DEVICE"
    from p i have "set_default_device (st ! (monitored_conditions config ! i)) =
                Inr (st' ! (monitored_conditions cfg' ! i))" by blast
    from set_default_device_absent [OF nd this]
    show "map_of (st' ! (monitored_conditions cfg' ! i)) CONF_DEVICE =
                Some (CInt (if map_of (st ! (monitored_conditions config ! i)) CONF_SENSOR_TYPE
                                = Some (CStr TYPE_INVERTER)
                            then 1 else 0))"
      using nd by (simp add: contains_def map_add_def)
  qed
  with r p show ?thesis by blast
qed

text \<open>
  C9. The validator works on a deep copy: whatever it returns or raises, every condition
  object that existed before the call has the content it had; the conditions of the returned
  configuration are newly allocated objects; a condition with a device index comes back
  with exactly its old content, a condition without one with its old content followed by
  the device key; the other fields of the configuration are as they were.
\<close>

theorem validator_copies_and_keeps_the_rest:
  assumes valid: "\<forall>a \<in> set (monitored_conditions config). a < length st"
    and run: "device_id_validator st config = (st', res)"
  shows "take (length st) st' = st \<and>
         (\<forall>cfg'. res = Inr cfg' \<longrightarrow>
            resource cfg' = resource config \<and> config.more cfg' = config.more config \<and>
            length (monitored_conditions cfg') = length (monitored_conditions config) \<and>
            (\<forall>i < length (monitored_conditions config).
               length st \<le> monitored_conditions cfg' ! i \<and>
               monitored_conditions cfg' ! i < length st' \<and>
               (contains (st ! (monitored_conditions config ! i)) CONF_DEVICE \<longrightarrow>
                  st' ! (monitored_conditions cfg' ! i) = st ! (monitored_conditions config ! i)) \<and>
               (\<not> contains (st ! (monitored_conditions config ! i)) CONF_DEVICE \<longrightarrow>
                  (\<exists>v. st' ! (monitored_conditions cfg' ! i) =
                         st ! (monitored_conditions config ! i) @ [(CONF_DEVICE, v)]))))"
proof (intro conjI allI impI)
  show "take (length st) st' = st"
    by (rule device_id_validator_result(1) [OF valid run])
next
  fix cfg' assume res: "res = Inr cfg'"
  note p = device_id_validator_result(2) [OF valid run res]
  from p have e: "cfg' = config\<lparr>monitored_conditions := monitored_conditions cfg'\<rparr>" by blast
  show "resource cfg' = resource config" by (subst e) simp
  show "config.more cfg' = config.more config" by (subst e) simp
  from p show "length (monitored_conditions cfg') = length (monitored_conditions config)" by blast
  fix i assume i: "i < length (monitored_conditions config)"
  from p i have q: "length st \<le> monitored_conditions cfg' ! i"
     "monitored_conditions cfg' ! i < length st'"
     "set_default_device (st ! (monitored_conditions config ! i)) =
                Inr (st' ! (monitored_conditions cfg' ! i))" by blast+
  show "length st \<le> monitored_conditions cfg' ! i" by (rule q(1))
  show "monitored_conditions cfg' ! i < length st'" by (rule q(2))
  {
    assume "contains (st ! (monitored_conditions config ! i)) CONF_DEVICE"
    from set_default_device_present [OF this] q(3)
    show "st' ! (monitored_conditions cfg' ! i) = st ! (monitored_conditions config ! i)" by simp
  }
  {
    assume "\<not> contains (st ! (monitored_conditions config ! i)) CONF_DEVICE"
    from set_default_device_absent [OF this q(3)]
    show "\<exists>v. st' ! (monitored_conditions cfg' ! i) =
                         st ! (monitored_conditions config ! i) @ [(CONF_DEVICE, v)]" by blast
  }
qed


lemma example_validation:
  "device_id_validator
     [[(CONF_SENSOR_TYPE, CStr TYPE_INVERTER), (CONF_SCOPE, CStr SCOPE_DEVICE)],
      [(CONF_SENSOR_TYPE, CStr TYPE_METER), (CONF_SCOPE, CStr SCOPE_DEVICE), (CONF_DEVICE, CInt 2)]]
     \<lparr> resource = ''http://inverter.local'', monitored_conditions = [0, 1] \<rparr> =
   ([[(CONF_SENSOR_TYPE, CStr TYPE_INVERTER), (CONF_SCOPE, CStr SCOPE_DEVICE)],
     [(CONF_SENSOR_TYPE, CStr TYPE_METER), (CONF_SCOPE, CStr SCOPE_DEVICE), (CONF_DEVICE, CInt 2)],
     [(CONF_SENSOR_TYPE, CStr TYPE_INVERTER), (CONF_SCOPE, CStr SCOPE_DEVICE), (CONF_DEVICE, CInt 1)],
     [(CONF_SENSOR_TYPE, CStr TYPE_METER), (CONF_SCOPE, CStr SCOPE_DEVICE), (CONF_DEVICE, CInt 2)]],
    Inr \<lparr> resource = ''http://inverter.local'', monitored_conditions = [2, 3] \<rparr>)"
  by (simp add: device_id_validator_def set_default_device_def contains_def
      CONF_SENSOR_TYPE_def CONF_SCOPE_def CONF_DEVICE_def TYPE_INVERTER_def TYPE_METER_def
      DEFAULT_INVERTER_def DEFAULT_DEVICE_def eval_nat_numeral)

theorem missing_device_index_default_witness:
  "contains [(CONF_SENSOR_TYPE, CStr TYPE_INVERTER), (CONF_SCOPE, CStr SCOPE_DEVICE)] CONF_SENSOR_TYPE \<and>
   \<not> contains [(CONF_SENSOR_TYPE, CStr TYPE_INVERTER), (CONF_SCOPE, CStr SCOPE_DEVICE)] CONF_DEVICE \<and>
   map_of
     (fst (device_id_validator
        [[(CONF_SENSOR_TYPE, CStr TYPE_INVERTER), (CONF_SCOPE, CStr SCOPE_DEVICE)],
         [(CONF_SENSOR_TYPE, CStr TYPE_METER), (CONF_SCOPE, CStr SCOPE_DEVICE), (CONF_DEVICE, CInt 2)]]
        \<lparr> resource = ''http://inverter.local'', monitored_conditions = [0, 1] \<rparr>) ! 2)
     CONF_DEVICE = Some (CInt 1)"
proof -
  let ?c0 = "[(CONF_SENSOR_TYPE, CStr TYPE_INVERTER), (CONF_SCOPE, CStr SCOPE_DEVICE)]"
  let ?c1 = "[(CONF_SENSOR_TYPE, CStr TYPE_METER), (CONF_SCOPE, CStr SCOPE_DEVICE), (CONF_DEVICE, CInt 2)]"
  let ?st = "[?c0, ?c1]"
  let ?cfg = "\<lparr> resource = ''http://inverter.local'', monitored_conditions = [0, 1] \<rparr>"
  have h1: "\<forall>a \<in> set (monitored_conditions ?cfg). a < length ?st" by simp
  have h2: "\<forall>a \<in> set (monitored_conditions ?cfg). contains (?st ! a) CONF_SENSOR_TYPE"
    by (simp add: contains_def)
  have a: "contains ?c0 CONF_SENSOR_TYPE" by (simp add: contains_def)
  have b: "\<not> contains ?c0 CONF_DEVICE"
    by (simp add: contains_def CONF_SENSOR_TYPE_def CONF_SCOPE_def CONF_DEVICE_def)
  from missing_device_index_default [OF h1 h2] obtain st' cfg' where
    r: "device_id_validator ?st ?cfg = (st', Inr cfg')" and
    q: "\<forall>i < length (monitored_conditions ?cfg).
              \<not> contains (?st ! (monitored_conditions ?cfg ! i)) CONF_DEVICE \<longrightarrow>
              map_of (st' ! (monitored_conditions cfg' ! i)) CONF_DEVICE =
                Some (CInt (if map_of (?st ! (monitored_conditions ?cfg ! i)) CONF_SENSOR_TYPE
                                = Some (CStr TYPE_INVERTER)
                            then 1 else 0))"
    by blast
  from r have i2: "monitored_conditions cfg' ! 0 = 2" and st': "st' = fst (device_id_validator ?st ?cfg)"
    unfolding example_validation by auto
  from q [rule_format, of 0] b
  have "map_of (st' ! (monitored_conditions cfg' ! 0)) CONF_DEVICE = Some (CInt 1)" by simp
  then have c: "map_of (fst (device_id_validator ?st ?cfg) ! 2) CONF_DEVICE = Some (CInt 1)"
    unfolding i2 st' .
  show ?thesis by (intro conjI a b c)
qed

theorem validator_copies_and_keeps_the_rest_witness:
  "take 2 (fst (device_id_validator
        [[(CONF_SENSOR_TYPE, CStr TYPE_INVERTER), (CONF_SCOPE, CStr SCOPE_DEVICE)],
         [(CONF_SENSOR_TYPE, CStr TYPE_METER), (CONF_SCOPE, CStr SCOPE_DEVICE), (CONF_DEVICE, CInt 2)]]
        \<lparr> resource = ''http://inverter.local'', monitored_conditions = [0, 1] \<rparr>)) =
     [[(CONF_SENSOR_TYPE, CStr TYPE_INVERTER), (CONF_SCOPE, CStr SCOPE_DEVICE)],
      [(CONF_SENSOR_TYPE, CStr TYPE_METER), (CONF_SCOPE, CStr SCOPE_DEVICE), (CONF_DEVICE, CInt 2)]] \<and>
   fst (device_id_validator
        [[(CONF_SENSOR_TYPE, CStr TYPE_INVERTER), (CONF_SCOPE, CStr SCOPE_DEVICE)],
         [(CONF_SENSOR_TYPE, CStr TYPE_METER), (CONF_SCOPE, CStr SCOPE_DEVICE), (CONF_DEVICE, CInt 2)]]
        \<lparr> resource = ''http://inverter.local'', monitored_conditions = [0, 1] \<rparr>) ! 3 =
     [(CONF_SENSOR_TYPE, CStr TYPE_METER), (CONF_SCOPE, CStr SCOPE_DEVICE), (CONF_DEVICE, CInt 2)]"
proof -
  let ?c0 = "[(CONF_SENSOR_TYPE, CStr TYPE_INVERTER), (CONF_SCOPE, CStr SCOPE_DEVICE)]"
  let ?c1 = "[(CONF_SENSOR_TYPE, CStr TYPE_METER), (CONF_SCOPE, CStr SCOPE_DEVICE), (CONF_DEVICE, CInt 2)]"
  let ?st = "[?c0, ?c1]"
  let ?cfg = "\<lparr> resource = ''http://inverter.local'', monitored_conditions = [0, 1] \<rparr>"
  let ?cfg' = "\<lparr> resource = ''http://inverter.local'', monitored_conditions = [2, 3] \<rparr>"
  let ?r = "device_id_validator ?st ?cfg"
  have h1: "\<forall>a \<in> set (monitored_conditions ?cfg). a < length ?st" by simp
  have h2: "?r = (fst ?r, Inr ?cfg')" unfolding example_validation by simp
  have dev: "contains (?st ! (monitored_conditions ?cfg ! 1)) CONF_DEVICE"
    by (simp add: contains_def)
  note t = validator_copies_and_keeps_the_rest [OF h1 h2]
  from t have a: "take (length ?st) (fst ?r) = ?st" by (rule conjunct1)
  from t have "(1::nat) < length (monitored_conditions ?cfg) \<longrightarrow>
      (contains (?st ! (monitored_conditions ?cfg ! 1)) CONF_DEVICE \<longrightarrow>
        fst ?r ! (monitored_conditions ?cfg' ! 1) = ?st ! (monitored_conditions ?cfg ! 1))"
    by blast
  with dev have b: "fst ?r ! 3 = ?c1" by simp
  have len: "length ?st = 2" by simp
  from a have a': "take 2 (fst ?r) = ?st" by (simp only: len)
  show ?thesis by (intro conjI a' b)
qed

subsection \<open>The schema of a monitored condition\<close>












end
